theory Spec2Isabelle
  imports Complex_Main
begin

section \<open>Finite-difference beam problem: the notebook as functions\<close>

text \<open>
  The notebook \<^verbatim>\<open>FD_beam_problem\<close> sets the parameters \<^verbatim>\<open>alpha\<close> and \<^verbatim>\<open>N\<close>, fills a dense
  matrix \<^verbatim>\<open>A\<close> and a vector \<^verbatim>\<open>f\<close> by index assignment, overwrites the boundary rows by slice
  assignment, calls \<^verbatim>\<open>numpy.linalg.solve\<close> and evaluates the closed-form deflection on
  \<^verbatim>\<open>numpy.linspace(0,1,30)\<close>. The cells are embedded here as functions of the parameters.
  Python floats are modelled as exact reals (no rounding, no overflow), Python integers as
  \<^typ>\<open>int\<close>, a one-dimensional array as a list and the two-dimensional array as the list of
  its rows. Every exception that Python or numpy raises is a value of \<open>error\<close>.
\<close>

subsection \<open>Errors and sequencing\<close>

datatype error = ZeroDivisionError | ValueError | IndexError | LinAlgError

definition bind_err :: "error + 'a \<Rightarrow> ('a \<Rightarrow> error + 'b) \<Rightarrow> error + 'b" where
  "bind_err m k = (case m of Inl e \<Rightarrow> Inl e | Inr x \<Rightarrow> k x)"

subsection \<open>The numpy and Python primitives the notebook uses\<close>

text \<open>\<^verbatim>\<open>a / b\<close> on floats raises \<^verbatim>\<open>ZeroDivisionError\<close> when the divisor is zero.\<close>

definition float_div :: "real \<Rightarrow> real \<Rightarrow> error + real" where
  "float_div a b = (if b = 0 then Inl ZeroDivisionError else Inr (a / b))"

text \<open>\<^verbatim>\<open>np.zeros(n)\<close> and \<^verbatim>\<open>np.zeros((m,n))\<close>: a negative dimension is a \<^verbatim>\<open>ValueError\<close>.\<close>

definition zeros :: "int \<Rightarrow> error + real list" where
  "zeros n = (if n < 0 then Inl ValueError else Inr (replicate (nat n) 0))"

definition zeros2 :: "int \<Rightarrow> int \<Rightarrow> error + real list list" where
  "zeros2 m n =
     (if m < 0 \<or> n < 0 then Inl ValueError
      else Inr (replicate (nat m) (replicate (nat n) 0)))"

text \<open>\<^verbatim>\<open>range(a, b)\<close> with the default step.\<close>

definition py_range :: "int \<Rightarrow> int \<Rightarrow> int list" where
  "py_range a b = [a..b - 1]"

text \<open>
  An integer index into an axis of length \<open>n\<close>: a negative index counts from the end, and an
  index outside \<open>-n..n-1\<close> is an \<^verbatim>\<open>IndexError\<close>.
\<close>

definition norm_index :: "nat \<Rightarrow> int \<Rightarrow> error + nat" where
  "norm_index n i =
     (if i < - int n \<or> int n \<le> i then Inl IndexError
      else Inr (nat (if i < 0 then i + int n else i)))"

text \<open>\<^verbatim>\<open>f[i] = v\<close> and \<^verbatim>\<open>A[i,j] = v\<close>.\<close>

definition setitem :: "real list \<Rightarrow> int \<Rightarrow> real \<Rightarrow> error + real list" where
  "setitem f i v = bind_err (norm_index (length f) i) (\<lambda>i'. Inr (f[i' := v]))"

definition setitem2 :: "real list list \<Rightarrow> int \<Rightarrow> int \<Rightarrow> real \<Rightarrow> error + real list list" where
  "setitem2 A i j v =
     bind_err (norm_index (length A) i) (\<lambda>i'.
     bind_err (norm_index (length (A ! i')) j) (\<lambda>j'.
     Inr (A[i' := (A ! i')[j' := v]])))"

text \<open>
  A bound of a slice \<^verbatim>\<open>lo:hi\<close> on an axis of length \<open>n\<close>: a negative bound has \<open>n\<close> added once,
  and the result is clamped to \<open>0..n\<close>; nothing is raised.
\<close>

definition slice_bound :: "nat \<Rightarrow> int \<Rightarrow> nat" where
  "slice_bound n k = (if k < 0 then nat (max 0 (k + int n)) else nat (min k (int n)))"

text \<open>
  \<^verbatim>\<open>row[lo:hi] = vals\<close>: the values are written when the slice has as many places as
  \<open>vals\<close> has entries, a single value is broadcast to the whole slice, and every other
  length is the \<^verbatim>\<open>ValueError\<close> "could not broadcast input array".
\<close>

definition setslice :: "real list \<Rightarrow> int \<Rightarrow> int \<Rightarrow> real list \<Rightarrow> error + real list" where
  "setslice row lo hi vals =
     (let a = slice_bound (length row) lo;
          b = slice_bound (length row) hi;
          m = b - a
      in if length vals = m then Inr (take a row @ vals @ drop (a + m) row)
         else if length vals = 1 then Inr (take a row @ replicate m (hd vals) @ drop (a + m) row)
         else Inl ValueError)"

text \<open>\<^verbatim>\<open>A[i, lo:hi] = vals\<close>.\<close>

definition setslice2 ::
  "real list list \<Rightarrow> int \<Rightarrow> int \<Rightarrow> int \<Rightarrow> real list \<Rightarrow> error + real list list" where
  "setslice2 A i lo hi vals =
     bind_err (norm_index (length A) i) (\<lambda>i'.
     bind_err (setslice (A ! i') lo hi vals) (\<lambda>row.
     Inr (A[i' := row])))"

text \<open>A \<^verbatim>\<open>for\<close> loop over a list of indices, threading the mutated array; it stops at the
  first exception.\<close>

fun for_range :: "int list \<Rightarrow> (int \<Rightarrow> 's \<Rightarrow> error + 's) \<Rightarrow> 's \<Rightarrow> error + 's" where
  "for_range [] body s = Inr s"
| "for_range (i # is) body s =
     (case body i s of Inl e \<Rightarrow> Inl e | Inr s' \<Rightarrow> for_range is body s')"

subsection \<open>Assembly of the matrix and the load vector\<close>

text \<open>The body of the interior loop: the five writes into row \<open>i\<close>.\<close>

definition stencil_row :: "int \<Rightarrow> real list list \<Rightarrow> error + real list list" where
  "stencil_row i A =
     bind_err (setitem2 A i (i - 2) 1) (\<lambda>A.
     bind_err (setitem2 A i (i - 1) (- 4)) (\<lambda>A.
     bind_err (setitem2 A i i 6) (\<lambda>A.
     bind_err (setitem2 A i (i + 1) (- 4)) (\<lambda>A.
     setitem2 A i (i + 2) 1))))"

text \<open>
  The parameter cell (\<^verbatim>\<open>dx = 1.0/(N-1)\<close>), the two interior loops and the boundary-condition
  cell, in the order the notebook runs them, as a function of \<^verbatim>\<open>N\<close> and \<^verbatim>\<open>alpha\<close>.
\<close>

definition assemble :: "int \<Rightarrow> real \<Rightarrow> error + (real list list \<times> real list)" where
  "assemble N alpha =
     bind_err (float_div 1 (of_int (N - 1))) (\<lambda>dx.
     bind_err (zeros2 N N) (\<lambda>A.
     bind_err (zeros N) (\<lambda>f.
     bind_err (for_range (py_range 2 (N - 2)) stencil_row A) (\<lambda>A.
     bind_err (for_range (py_range 2 (N - 2)) (\<lambda>i f. setitem f i (- alpha * dx ^ 4)) f) (\<lambda>f.
     bind_err (setitem2 A 0 0 1) (\<lambda>A.
     bind_err (setitem f 0 0) (\<lambda>f.
     bind_err (setslice2 A 1 0 2 [1, - 1]) (\<lambda>A.
     bind_err (setitem f 1 0) (\<lambda>f.
     bind_err (setslice2 A (N - 2) (N - 3) N [1, - 2, 1]) (\<lambda>A.
     bind_err (setitem f (N - 2) 0) (\<lambda>f.
     bind_err (setslice2 A (N - 1) (N - 4) N [- 1, 3, - 3, 1]) (\<lambda>A.
     bind_err (setitem f (N - 1) 0) (\<lambda>f.
     Inr (A, f))))))))))))))"

subsection \<open>The linear solve\<close>

text \<open>
  The matrix-vector product that states what a solution is: entry \<open>i\<close> of \<open>mat_vec A x\<close> is
  the dot product of row \<open>i\<close> with \<open>x\<close>.
\<close>

fun dot :: "real list \<Rightarrow> real list \<Rightarrow> real" where
  "dot (x # xs) (y # ys) = x * y + dot xs ys"
| "dot _ _ = 0"

definition mat_vec :: "real list list \<Rightarrow> real list \<Rightarrow> real list" where
  "mat_vec A x = map (\<lambda>row. dot row x) A"

text \<open>
  Modelled from the spec: \<^verbatim>\<open>numpy.linalg.solve\<close>, which the notebook calls as
  \<^verbatim>\<open>u = solve(A,f)\<close>, is library code outside the repository. Section 4.2 of the
  specification describes it as a direct dense solve (LU-based elimination) that returns the
  unique solution of a square system and fails on a singular matrix. The model is that
  elimination in exact arithmetic, on the augmented rows \<open>(coefficients, right-hand side)\<close>,
  with the row interchanges of partial pivoting as LAPACK's \<^verbatim>\<open>gesv\<close> makes them. The errors
  are numpy's: \<^verbatim>\<open>LinAlgError\<close> for a matrix that is not square and for a pivot column that
  is zero throughout (the specification's \<^verbatim>\<open>SingularMatrix\<close>), \<^verbatim>\<open>ValueError\<close> for a right-hand
  side of the wrong length.

  \<open>argmax_abs\<close> is the pivot search: the first index of an entry of largest absolute value.
\<close>

fun argmax_abs :: "real list \<Rightarrow> nat" where
  "argmax_abs [] = 0"
| "argmax_abs [x] = 0"
| "argmax_abs (x # xs) = (let p = argmax_abs xs in if \<bar>xs ! p\<bar> \<le> \<bar>x\<bar> then 0 else Suc p)"

text \<open>Subtracting the multiple of the pivot row that clears the first column of \<open>r\<close>; the
  cleared column is dropped.\<close>

definition eliminate :: "real list \<times> real \<Rightarrow> real list \<times> real \<Rightarrow> real list \<times> real" where
  "eliminate p r =
     (let m = hd (fst r) / hd (fst p)
      in (map2 (\<lambda>a b. a - m * b) (tl (fst r)) (tl (fst p)), snd r - m * snd p))"

text \<open>
  One column at a time: choose the pivot row, exchange it with the first row, eliminate the
  column from the remaining rows, solve the smaller system and substitute back.
\<close>

fun gauss :: "nat \<Rightarrow> (real list \<times> real) list \<Rightarrow> error + real list" where
  "gauss 0 rows = Inr []"
| "gauss (Suc n) rows =
     (let p = argmax_abs (map (\<lambda>r. hd (fst r)) rows);
          piv = rows ! p
      in if hd (fst piv) = 0 then Inl LinAlgError
         else case gauss n (map (eliminate piv) (tl (rows[p := hd rows]))) of
                Inl e \<Rightarrow> Inl e
              | Inr xs \<Rightarrow> Inr ((snd piv - dot (tl (fst piv)) xs) / hd (fst piv) # xs))"

definition solve :: "real list list \<Rightarrow> real list \<Rightarrow> error + real list" where
  "solve A f =
     (if \<exists>row\<in>set A. length row \<noteq> length A then Inl LinAlgError
      else if length f \<noteq> length A then Inl ValueError
      else gauss (length A) (zip A f))"

text \<open>The notebook up to \<^verbatim>\<open>u = solve(A,f)\<close>.\<close>

definition beam :: "int \<Rightarrow> real \<Rightarrow> error + real list" where
  "beam N alpha = bind_err (assemble N alpha) (\<lambda>(A, f). solve A f)"

subsection \<open>The determinant\<close>

text \<open>
  The determinant of a square matrix given by its rows, by Laplace expansion along the first
  column: the entries of the first column, each times the determinant of the matrix without
  its row and without the first column, with alternating signs. \<open>alt_expand d pre post\<close> is the
  alternating sum over the rows of \<open>post\<close>, where \<open>pre\<close> holds the rows above and \<open>d\<close> is the
  determinant of the smaller size.
\<close>

fun alt_expand :: "(real list list \<Rightarrow> real) \<Rightarrow> real list list \<Rightarrow> real list list \<Rightarrow> real" where
  "alt_expand d pre [] = 0"
| "alt_expand d pre (r # post) = hd r * d (map tl (pre @ post)) - alt_expand d (pre @ [r]) post"

primrec det_rec :: "nat \<Rightarrow> real list list \<Rightarrow> real" where
  "det_rec 0 rows = 1"
| "det_rec (Suc n) rows = alt_expand (det_rec n) [] rows"

definition det :: "real list list \<Rightarrow> real" where
  "det A = det_rec (length A) A"

subsection \<open>The analytical reference\<close>

text \<open>
  \<^verbatim>\<open>numpy.linspace(start, stop, num)\<close> with the end point included, as the library computes it:
  the indices \<open>0..num-1\<close> are scaled by the step, shifted by \<open>start\<close>, and the last sample is
  then set to \<open>stop\<close>.
\<close>

definition linspace :: "real \<Rightarrow> real \<Rightarrow> int \<Rightarrow> error + real list" where
  "linspace start stop num =
     (if num < 0 then Inl ValueError
      else
        let div' = num - 1;
            delta = stop - start;
            y = map real [0..<nat num];
            y = (if 0 < div'
                 then (let step = delta / of_int div'
                       in if step = 0 then map (\<lambda>v. v / of_int div' * delta) y
                          else map (\<lambda>v. v * step) y)
                 else map (\<lambda>v. v * delta) y);
            y = map (\<lambda>v. v + start) y
        in Inr (if 1 < num then y[nat num - 1 := stop] else y))"

text \<open>The cell \<^verbatim>\<open>x_ref = np.linspace(0,1,30)\<close>, \<^verbatim>\<open>u_ref = -alpha*x_ref**2 * (...)\<close>, with the
  number of samples as a parameter.\<close>

definition reference :: "real \<Rightarrow> int \<Rightarrow> error + (real list \<times> real list)" where
  "reference alpha m =
     bind_err (linspace 0 1 m) (\<lambda>x_ref.
     Inr (x_ref, map (\<lambda>x. - alpha * x ^ 2 * (1 / 4 - x / 6 + x ^ 2 / 24)) x_ref))"

subsection \<open>The system as the specification writes it\<close>

text \<open>
  Section 4.1 of the specification in its own words: the interior row \<open>i\<close> carries
  \<open>[1,-4,6,-4,1]\<close> at columns \<open>i-2..i+2\<close>, the four boundary rows carry their one-sided
  coefficients, every other entry is zero; the load is \<open>-b h\<^sup>4\<close> in the interior and zero at
  the four boundary indices, with \<open>h = 1/(n-1)\<close>.
\<close>

definition interior_row :: "nat \<Rightarrow> nat \<Rightarrow> real list" where
  "interior_row n i = replicate (i - 2) 0 @ [1, - 4, 6, - 4, 1] @ replicate (n - 3 - i) 0"

definition beam_matrix :: "nat \<Rightarrow> real list list" where
  "beam_matrix n =
     [1 # replicate (n - 1) 0, [1, - 1] @ replicate (n - 2) 0]
     @ map (interior_row n) [2..<n - 2]
     @ [replicate (n - 3) 0 @ [1, - 2, 1], replicate (n - 4) 0 @ [- 1, 3, - 3, 1]]"

definition beam_load :: "nat \<Rightarrow> real \<Rightarrow> real list" where
  "beam_load n b = [0, 0] @ replicate (n - 4) (- b * (1 / (real n - 1)) ^ 4) @ [0, 0]"

text \<open>The five writes of the interior loop body, seen on the row they change.\<close>

definition write_stencil :: "nat \<Rightarrow> real list \<Rightarrow> real list" where
  "write_stencil i row = row[i - 2 := 1, i - 1 := - 4, i := 6, i + 1 := - 4, i + 2 := 1]"

section \<open>The assembled system in closed form\<close>

lemma bind_err_simps [simp]:
  "bind_err (Inl e) k = Inl e" "bind_err (Inr x) k = k x"
  by (simp_all add: bind_err_def)

lemma norm_index_nat: "i < n \<Longrightarrow> norm_index n (int i) = Inr i"
  by (simp add: norm_index_def)

lemma setitem_nat: "i < length f \<Longrightarrow> setitem f (int i) v = Inr (f[i := v])"
  by (simp add: setitem_def norm_index_nat)

lemma setitem2_nat:
  "i < length A \<Longrightarrow> j < length (A ! i) \<Longrightarrow>
   setitem2 A (int i) (int j) v = Inr (A[i := (A ! i)[j := v]])"
  by (simp add: setitem2_def norm_index_nat)

lemma stencil_row_nat:
  assumes "2 \<le> i" "i + 2 < length (A ! i)" "i < length A"
  shows "stencil_row (int i) A = Inr (A[i := write_stencil i (A ! i)])"
proof -
  have e: "int i - 2 = int (i - 2)" "int i - 1 = int (i - 1)"
    "int i + 1 = int (i + 1)" "int i + 2 = int (i + 2)"
    using assms by simp_all
  let ?r1 = "(A ! i)[i - 2 := 1]"
  let ?r2 = "?r1[i - 1 := - 4]"
  let ?r3 = "?r2[i := 6]"
  let ?r4 = "?r3[i + 1 := - 4]"
  have 1: "setitem2 A (int i) (int (i - 2)) 1 = Inr (A[i := ?r1])"
    by (rule setitem2_nat [THEN trans]) (use assms in simp_all)
  have 2: "setitem2 (A[i := ?r1]) (int i) (int (i - 1)) (- 4) = Inr (A[i := ?r2])"
    by (rule setitem2_nat [THEN trans]) (use assms in simp_all)
  have 3: "setitem2 (A[i := ?r2]) (int i) (int i) 6 = Inr (A[i := ?r3])"
    by (rule setitem2_nat [THEN trans]) (use assms in simp_all)
  have 4: "setitem2 (A[i := ?r3]) (int i) (int (i + 1)) (- 4) = Inr (A[i := ?r4])"
    by (rule setitem2_nat [THEN trans]) (use assms in simp_all)
  have 5: "setitem2 (A[i := ?r4]) (int i) (int (i + 2)) 1 = Inr (A[i := ?r4[i + 2 := 1]])"
    by (rule setitem2_nat [THEN trans]) (use assms in simp_all)
  show ?thesis
    unfolding stencil_row_def e 1 2 3 4 5 bind_err_simps write_stencil_def ..
qed

lemma py_range_nat: "py_range (int a) (int b) = map int [a..<b]"
proof -
  have "[int a..int b - 1] = map int [a..<b]"
  proof (induction b)
    case 0
    then show ?case by simp
  next
    case (Suc b)
    show ?case
    proof (cases "a \<le> b")
      case True
      then have "[int a..int (Suc b) - 1] = [int a..int b - 1] @ [int b]"
        using upto_rec2[of "int a" "int b"] by simp
      with Suc True show ?thesis by simp
    next
      case False
      then show ?thesis by simp
    qed
  qed
  then show ?thesis by (simp add: py_range_def)
qed

lemma for_range_fold:
  assumes "\<And>i s. i \<in> set js \<Longrightarrow> P s \<Longrightarrow> body (int i) s = Inr (g i s) \<and> P (g i s)"
    and "P s"
  shows "for_range (map int js) body s = Inr (fold g js s) \<and> P (fold g js s)"
  using assms
proof (induction js arbitrary: s)
  case Nil
  then show ?case by simp
next
  case (Cons j js)
  from Cons.prems(1)[of j s] Cons.prems(2)
  have b: "body (int j) s = Inr (g j s)" and p: "P (g j s)" by simp_all
  have "for_range (map int js) body (g j s) = Inr (fold g js (g j s)) \<and> P (fold g js (g j s))"
    by (rule Cons.IH) (use Cons.prems(1) p in auto)
  with b show ?case by simp
qed


lemma write_stencil_zero:
  assumes "2 \<le> i" "i + 2 < n"
  shows "write_stencil i (replicate n 0) = interior_row n i"
proof -
  define k where "k = i - 2"
  define m where "m = n - 3 - i"
  have i: "i = Suc (Suc k)" and n: "n = k + (5 + m)"
    using assms by (simp_all add: k_def m_def)
  have r: "replicate n (0::real) = replicate k 0 @ [0, 0, 0, 0, 0] @ replicate m 0"
    unfolding n replicate_add by (simp add: numeral_eq_Suc)
  have km: "i - 2 = k" "n - 3 - i = m" by (simp_all add: k_def m_def)
  show ?thesis
    unfolding write_stencil_def interior_row_def km r
    by (simp add: list_update_append i)
qed


lemma replicate_two: "2 \<le> n \<Longrightarrow> replicate n x = x # x # replicate (n - 2) x"
  by (cases n; cases "n - 1") simp_all

lemma fold_stencil:
  assumes "2 \<le> k" "k + 2 \<le> n"
  shows "fold (\<lambda>i A. A[i := write_stencil i (A ! i)]) [2..<k] (replicate n (replicate n 0))
       = replicate 2 (replicate n 0) @ map (interior_row n) [2..<k]
         @ replicate (n - k) (replicate n 0)"
  using assms
proof (induction k rule: nat_induct_at_least)
  case base
  then show ?case by (simp add: replicate_two)
next
  case (Suc k)
  define Z where "Z = replicate n (0::real)"
  define pre where "pre = replicate 2 Z @ map (interior_row n) [2..<k]"
  define post where "post = replicate (n - Suc k) Z"
  have len: "length pre = k" using Suc.hyps by (simp add: pre_def)
  have rest: "replicate (n - k) Z = Z # post"
    using Suc.prems by (simp add: post_def Suc_diff_le replicate_Suc [symmetric] del: replicate_Suc)
  have ih: "fold (\<lambda>i A. A[i := write_stencil i (A ! i)]) [2..<k] (replicate n Z) = pre @ Z # post"
    using Suc.IH Suc.prems by (simp add: Z_def [symmetric] pre_def rest)
  have upd: "(pre @ Z # post)[k := v] = pre @ v # post" for v
    unfolding len [symmetric] by simp
  have nth: "(pre @ Z # post) ! k = Z"
    unfolding len [symmetric] by simp
  have w: "write_stencil k Z = interior_row n k"
    unfolding Z_def by (rule write_stencil_zero) (use Suc in simp_all)
  have r: "[2..<Suc k] = [2..<k] @ [k]" using Suc.hyps by simp
  have "fold (\<lambda>i A. A[i := write_stencil i (A ! i)]) [2..<Suc k] (replicate n Z)
      = pre @ interior_row n k # post"
    unfolding r fold_append comp_def ih by (simp add: upd nth w)
  then show ?case
    using Suc.hyps by (simp add: Z_def pre_def post_def)
qed

lemma fold_load:
  assumes "2 \<le> k" "k + 2 \<le> n"
  shows "fold (\<lambda>i f. f[i := c]) [2..<k] (replicate n (0::real))
       = replicate 2 0 @ replicate (k - 2) c @ replicate (n - k) 0"
  using assms
proof (induction k rule: nat_induct_at_least)
  case base
  then show ?case by (simp add: replicate_two)
next
  case (Suc k)
  define pre where "pre = replicate 2 (0::real) @ replicate (k - 2) c"
  define post where "post = replicate (n - Suc k) (0::real)"
  have len: "length pre = k" using Suc.hyps by (simp add: pre_def)
  have rest: "replicate (n - k) (0::real) = 0 # post"
    using Suc.prems by (simp add: post_def Suc_diff_le replicate_Suc [symmetric] del: replicate_Suc)
  have ih: "fold (\<lambda>i f. f[i := c]) [2..<k] (replicate n (0::real)) = pre @ 0 # post"
    using Suc.IH Suc.prems by (simp add: pre_def rest)
  have upd: "(pre @ 0 # post)[k := c] = pre @ c # post"
    unfolding len [symmetric] by simp
  have "Suc k - 2 = Suc (k - 2)" using Suc.hyps by simp
  then have c: "replicate (Suc k - 2) c = replicate (k - 2) c @ [c]"
    by (simp only: replicate_append_same replicate_Suc)
  have r: "[2..<Suc k] = [2..<k] @ [k]" using Suc.hyps by simp
  have "fold (\<lambda>i f. f[i := c]) [2..<Suc k] (replicate n (0::real)) = pre @ c # post"
    unfolding r fold_append comp_def ih by (simp add: upd)
  then show ?case
    unfolding c by (simp add: pre_def post_def)
qed


lemma slice_bound_nat: "k \<le> n \<Longrightarrow> slice_bound n (int k) = k"
  by (simp add: slice_bound_def)

lemma setslice_zero:
  assumes "a + length vals = b" "b \<le> n"
  shows "setslice (replicate n 0) (int a) (int b) vals
       = Inr (replicate a 0 @ vals @ replicate (n - b) 0)"
proof -
  have a: "slice_bound (length (replicate n (0::real))) (int a) = a"
    and b: "slice_bound (length (replicate n (0::real))) (int b) = b"
    using assms by (simp_all add: slice_bound_nat)
  have m: "b - a = length vals" "a + length vals = b" using assms by simp_all
  have "min n a = a" using assms by simp
  then show ?thesis
    unfolding setslice_def a b Let_def m by simp
qed

lemma setslice2_nat:
  assumes "i < length A" "setslice (A ! i) lo hi vals = Inr row"
  shows "setslice2 A (int i) lo hi vals = Inr (A[i := row])"
  using assms by (simp add: setslice2_def norm_index_nat)

lemma for_stencil:
  assumes "4 \<le> n"
  shows "for_range (py_range 2 (int n - 2)) stencil_row (replicate n (replicate n 0))
       = Inr (replicate 2 (replicate n 0) @ map (interior_row n) [2..<n - 2]
              @ replicate 2 (replicate n 0))"
proof -
  let ?P = "\<lambda>A::real list list. length A = n \<and> (\<forall>r\<in>set A. length r = n)"
  let ?g = "\<lambda>i A. A[i := write_stencil i (A ! i)]"
  have r: "py_range 2 (int n - 2) = map int [2..<n - 2]"
    using py_range_nat [of 2 "n - 2"] assms by simp
  have step: "stencil_row (int i) A = Inr (?g i A) \<and> ?P (?g i A)"
    if "i \<in> set [2..<n - 2]" "?P A" for i A
  proof
    have i: "2 \<le> i" "i + 2 < n" using that(1) by auto
    then have "i < length A" "length (A ! i) = n" using that(2) by simp_all
    with i show "stencil_row (int i) A = Inr (?g i A)"
      by (intro stencil_row_nat) simp_all
    have "length (write_stencil i (A ! i)) = n"
      using \<open>length (A ! i) = n\<close> by (simp add: write_stencil_def)
    with that(2) show "?P (?g i A)"
      using set_update_subset_insert [of A i "write_stencil i (A ! i)"] by auto
  qed
  have "for_range (map int [2..<n - 2]) stencil_row (replicate n (replicate n 0))
      = Inr (fold ?g [2..<n - 2] (replicate n (replicate n 0)))"
    using for_range_fold [of "[2..<n - 2]" ?P stencil_row ?g "replicate n (replicate n 0)"] step
    by simp
  also have "fold ?g [2..<n - 2] (replicate n (replicate n 0))
      = replicate 2 (replicate n 0) @ map (interior_row n) [2..<n - 2]
        @ replicate (n - (n - 2)) (replicate n 0)"
    by (rule fold_stencil) (use assms in simp_all)
  also have "n - (n - 2) = 2" using assms by simp
  finally show ?thesis unfolding r .
qed

lemma for_load:
  assumes "4 \<le> n"
  shows "for_range (py_range 2 (int n - 2)) (\<lambda>i f. setitem f i c) (replicate n 0)
       = Inr (replicate 2 0 @ replicate (n - 4) c @ replicate 2 0)"
proof -
  let ?P = "\<lambda>f::real list. length f = n"
  let ?g = "\<lambda>i (f::real list). f[i := c]"
  have r: "py_range 2 (int n - 2) = map int [2..<n - 2]"
    using py_range_nat [of 2 "n - 2"] assms by simp
  have step: "setitem f (int i) c = Inr (?g i f) \<and> ?P (?g i f)"
    if "i \<in> set [2..<n - 2]" "?P f" for i f
  proof -
    from that have "i < length f" by auto
    with that(2) show ?thesis by (simp add: setitem_nat)
  qed
  have "for_range (map int [2..<n - 2]) (\<lambda>i f. setitem f i c) (replicate n 0)
      = Inr (fold ?g [2..<n - 2] (replicate n 0))"
    using for_range_fold [of "[2..<n - 2]" ?P "\<lambda>i f. setitem f i c" ?g "replicate n 0"] step
    by simp
  also have "fold ?g [2..<n - 2] (replicate n 0)
      = replicate 2 0 @ replicate (n - 2 - 2) c @ replicate (n - (n - 2)) 0"
    by (rule fold_load) (use assms in simp_all)
  also have "n - (n - 2) = 2" using assms by simp
  also have "n - 2 - 2 = n - 4" by simp
  finally show ?thesis unfolding r .
qed


lemma assemble_eq:
  assumes "5 \<le> n"
  shows "assemble (int n) b = Inr (beam_matrix n, beam_load n b)"
proof -
  define Z where "Z = replicate n (0::real)"
  define mid where "mid = map (interior_row n) [2..<n - 2]"
  define c where "c = - b * (1 / (real n - 1)) ^ 4"
  define fm where "fm = replicate (n - 4) c"
  have lenZ: "length Z = n" by (simp add: Z_def)
  have lmid: "length mid = n - 4" by (simp add: mid_def)
  have lfm: "length fm = n - 4" by (simp add: fm_def)
  have idx: "int n - 1 = int (n - 1)" "int n - 2 = int (n - 2)" "int n - 3 = int (n - 3)"
    "int n - 4 = int (n - 4)" "(0::int) = int 0" "(1::int) = int 1" "(2::int) = int 2"
    using assms by simp_all
  have s1: "float_div 1 (real_of_int (int n - 1)) = Inr (1 / (real n - 1))"
    using assms by (simp add: float_div_def)
  have s2: "zeros2 (int n) (int n) = Inr (replicate n Z)"
    by (simp add: zeros2_def Z_def)
  have s3: "zeros (int n) = Inr Z"
    by (simp add: zeros_def Z_def)
  have s4: "for_range (py_range 2 (int n - 2)) stencil_row (replicate n Z)
      = Inr ([Z, Z] @ mid @ [Z, Z])"
    unfolding Z_def mid_def using for_stencil [of n] assms by (simp add: numeral_2_eq_2)
  have s5: "for_range (py_range 2 (int n - 2)) (\<lambda>i f. setitem f i (- b * (1 / (real n - 1)) ^ 4)) Z
      = Inr ([0, 0] @ fm @ [0, 0])"
    unfolding Z_def fm_def c_def using for_load [of n] assms by (simp add: numeral_2_eq_2)
  define R0 where "R0 = 1 # replicate (n - 1) (0::real)"
  define R1 where "R1 = [1, - 1] @ replicate (n - 2) (0::real)"
  define R2 where "R2 = replicate (n - 3) (0::real) @ [1, - 2, 1]"
  define R3 where "R3 = replicate (n - 4) (0::real) @ [- 1, 3, - 3, 1]"
  have s6: "setitem2 ([Z, Z] @ mid @ [Z, Z]) 0 0 1 = Inr ([R0, Z] @ mid @ [Z, Z])"
  proof -
    have "Z[0 := 1] = R0" using assms unfolding Z_def R0_def by (cases n) simp_all
    then show ?thesis
      using setitem2_nat [of 0 "[Z, Z] @ mid @ [Z, Z]" 0 1] assms by (simp add: lenZ)
  qed
  have s7: "setitem ([0, 0] @ fm @ [0, 0]) 0 0 = Inr ([0, 0] @ fm @ [0, 0])"
    using setitem_nat [of 0 "[0, 0] @ fm @ [0, 0]" 0] by simp
  have s8: "setslice2 ([R0, Z] @ mid @ [Z, Z]) 1 0 2 [1, - 1] = Inr ([R0, R1] @ mid @ [Z, Z])"
  proof -
    have "setslice Z (int 0) (int 2) [1, - 1] = Inr (replicate 0 0 @ [1, - 1] @ replicate (n - 2) 0)"
      unfolding Z_def by (rule setslice_zero) (use assms in simp_all)
    then have "setslice (([R0, Z] @ mid @ [Z, Z]) ! 1) 0 2 [1, - 1] = Inr R1"
      by (simp add: R1_def)
    from setslice2_nat [OF _ this] show ?thesis by simp
  qed
  have s9: "setitem ([0, 0] @ fm @ [0, 0]) 1 0 = Inr ([0, 0] @ fm @ [0, 0])"
    using setitem_nat [of 1 "[0, 0] @ fm @ [0, 0]" 0] by simp
  have n2: "n - 2 = length ([R0, R1] @ mid)" "n - 2 = length ([0, 0] @ fm)"
    using assms by (simp_all add: lmid lfm)
  have n1: "n - 1 = length ([R0, R1] @ mid @ [R2])" "n - 1 = length ([0, 0] @ fm @ [0])"
    using assms by (simp_all add: lmid lfm)
  have s10: "setslice2 ([R0, R1] @ mid @ [Z, Z]) (int n - 2) (int n - 3) (int n) [1, - 2, 1]
      = Inr ([R0, R1] @ mid @ [R2, Z])"
  proof -
    have "setslice Z (int (n - 3)) (int n) [1, - 2, 1]
        = Inr (replicate (n - 3) 0 @ [1, - 2, 1] @ replicate (n - n) 0)"
      unfolding Z_def by (rule setslice_zero) (use assms in simp_all)
    then have e: "setslice Z (int (n - 3)) (int n) [1, - 2, 1] = Inr R2"
      by (simp add: R2_def)
    have nth: "(([R0, R1] @ mid) @ Z # [Z]) ! (n - 2) = Z"
      unfolding n2(1) by (rule nth_append_length)
    have upd: "(([R0, R1] @ mid) @ Z # [Z])[n - 2 := R2] = ([R0, R1] @ mid) @ R2 # [Z]"
      unfolding n2(1) by (rule list_update_length)
    have "setslice2 (([R0, R1] @ mid) @ Z # [Z]) (int (n - 2)) (int (n - 3)) (int n) [1, - 2, 1]
        = Inr ((([R0, R1] @ mid) @ Z # [Z])[n - 2 := R2])"
      (is "setslice2 ?A (int ?i) ?lo (int n) ?vals = Inr (_[_ := ?R])")
    proof (rule setslice2_nat)
      show "setslice (?A ! ?i) ?lo (int n) ?vals = Inr ?R" unfolding nth by (rule e)
    qed (use assms in \<open>simp add: lmid\<close>)
    then show ?thesis unfolding upd idx(2,3) by simp
  qed
  have s11: "setitem ([0, 0] @ fm @ [0, 0]) (int n - 2) 0 = Inr ([0, 0] @ fm @ [0, 0])"
  proof -
    have "(([0, 0] @ fm) @ 0 # [0])[n - 2 := 0] = ([0, 0] @ fm) @ 0 # [0::real]"
      unfolding n2(2) by (rule list_update_length)
    moreover have "setitem (([0, 0] @ fm) @ 0 # [0]) (int (n - 2)) 0
        = Inr ((([0, 0] @ fm) @ 0 # [0])[n - 2 := 0])"
      by (rule setitem_nat) (use assms in \<open>simp add: lfm\<close>)
    ultimately show ?thesis unfolding idx(2) by simp
  qed
  have s12: "setslice2 ([R0, R1] @ mid @ [R2, Z]) (int n - 1) (int n - 4) (int n) [- 1, 3, - 3, 1]
      = Inr ([R0, R1] @ mid @ [R2, R3])"
  proof -
    have "setslice Z (int (n - 4)) (int n) [- 1, 3, - 3, 1]
        = Inr (replicate (n - 4) 0 @ [- 1, 3, - 3, 1] @ replicate (n - n) 0)"
      unfolding Z_def by (rule setslice_zero) (use assms in simp_all)
    then have e: "setslice Z (int (n - 4)) (int n) [- 1, 3, - 3, 1] = Inr R3"
      by (simp add: R3_def)
    have nth: "(([R0, R1] @ mid @ [R2]) @ Z # []) ! (n - 1) = Z"
      unfolding n1(1) by (rule nth_append_length)
    have upd: "(([R0, R1] @ mid @ [R2]) @ Z # [])[n - 1 := R3] = ([R0, R1] @ mid @ [R2]) @ R3 # []"
      unfolding n1(1) by (rule list_update_length)
    have "setslice2 (([R0, R1] @ mid @ [R2]) @ Z # []) (int (n - 1)) (int (n - 4)) (int n) [- 1, 3, - 3, 1]
        = Inr ((([R0, R1] @ mid @ [R2]) @ Z # [])[n - 1 := R3])"
      (is "setslice2 ?A (int ?i) ?lo (int n) ?vals = Inr (_[_ := ?R])")
    proof (rule setslice2_nat)
      show "setslice (?A ! ?i) ?lo (int n) ?vals = Inr ?R" unfolding nth by (rule e)
    qed (use assms in \<open>simp add: lmid\<close>)
    then show ?thesis unfolding upd idx(1,4) by simp
  qed
  have s13: "setitem ([0, 0] @ fm @ [0, 0]) (int n - 1) 0 = Inr ([0, 0] @ fm @ [0, 0])"
  proof -
    have "(([0, 0] @ fm @ [0]) @ 0 # [])[n - 1 := 0] = ([0, 0] @ fm @ [0]) @ (0::real) # []"
      unfolding n1(2) by (rule list_update_length)
    moreover have "setitem (([0, 0] @ fm @ [0]) @ 0 # []) (int (n - 1)) 0
        = Inr ((([0, 0] @ fm @ [0]) @ 0 # [])[n - 1 := 0])"
      by (rule setitem_nat) (use assms in \<open>simp add: lfm\<close>)
    ultimately show ?thesis unfolding idx(1) by simp
  qed
  have "assemble (int n) b = Inr ([R0, R1] @ mid @ [R2, R3], [0, 0] @ fm @ [0, 0])"
    unfolding assemble_def
    by (simp only: s1 s2 s3 s4 s5 s6 s7 s8 s9 s10 s11 s12 s13 bind_err_simps)
  then show ?thesis
    by (simp add: beam_matrix_def beam_load_def R0_def R1_def R2_def R3_def mid_def fm_def c_def)
qed

lemma beam_matrix_length: "4 \<le> n \<Longrightarrow> length (beam_matrix n) = n"
  by (simp add: beam_matrix_def)

lemma beam_matrix_nth_interior:
  assumes "2 \<le> i" "i + 3 \<le> n"
  shows "beam_matrix n ! i = interior_row n i"
proof -
  obtain k where i: "i = k + 2" using assms(1) by (metis le_add_diff_inverse2)
  have "k < length (map (interior_row n) [2..<n - 2])" using assms i by simp
  then have "(map (interior_row n) [2..<n - 2] @ ys) ! k = interior_row n (2 + k)" for ys
    by (simp add: nth_append)
  then show ?thesis by (simp add: beam_matrix_def i add.commute)
qed

lemma beam_matrix_nth_boundary:
  assumes "5 \<le> n"
  shows "beam_matrix n ! 0 = 1 # replicate (n - 1) 0"
    and "beam_matrix n ! 1 = [1, - 1] @ replicate (n - 2) 0"
    and "beam_matrix n ! (n - 2) = replicate (n - 3) 0 @ [1, - 2, 1]"
    and "beam_matrix n ! (n - 1) = replicate (n - 4) 0 @ [- 1, 3, - 3, 1]"
proof -
  let ?R0 = "1 # replicate (n - 1) (0::real)" and ?R1 = "[1, - 1] @ replicate (n - 2) (0::real)"
  let ?R2 = "replicate (n - 3) (0::real) @ [1, - 2, 1]"
  let ?R3 = "replicate (n - 4) (0::real) @ [- 1, 3, - 3, 1]"
  let ?pre = "[?R0, ?R1] @ map (interior_row n) [2..<n - 2]"
  have len: "length ?pre = n - 2" "length (?pre @ [?R2]) = n - 1" using assms by simp_all
  have b: "beam_matrix n = ?pre @ ?R2 # [?R3]" "beam_matrix n = (?pre @ [?R2]) @ ?R3 # []"
    by (simp_all add: beam_matrix_def)
  show "beam_matrix n ! 0 = ?R0" "beam_matrix n ! 1 = ?R1"
    by (simp_all add: beam_matrix_def)
  have "beam_matrix n ! length ?pre = ?R2"
    unfolding b(1) by (rule nth_append_length)
  then show "beam_matrix n ! (n - 2) = ?R2" by (simp only: len)
  have "beam_matrix n ! length (?pre @ [?R2]) = ?R3"
    unfolding b(2) by (rule nth_append_length)
  then show "beam_matrix n ! (n - 1) = ?R3" by (simp only: len)
qed

lemma beam_load_length: "4 \<le> n \<Longrightarrow> length (beam_load n b) = n"
  by (simp add: beam_load_def)

lemma beam_load_nth_interior:
  assumes "2 \<le> i" "i + 3 \<le> n"
  shows "beam_load n b ! i = - b * (1 / (real n - 1)) ^ 4"
proof -
  obtain k where i: "i = k + 2" using assms(1) by (metis le_add_diff_inverse2)
  have "k < n - 4" using assms i by simp
  then show ?thesis by (simp add: beam_load_def i nth_append)
qed

lemma beam_load_nth_boundary:
  assumes "5 \<le> n"
  shows "beam_load n b ! 0 = 0" "beam_load n b ! 1 = 0"
    "beam_load n b ! (n - 2) = 0" "beam_load n b ! (n - 1) = 0"
proof -
  let ?pre = "[0, 0] @ replicate (n - 4) (- b * (1 / (real n - 1)) ^ 4)"
  have len: "length ?pre = n - 2" "length (?pre @ [0]) = n - 1" using assms by simp_all
  have b: "beam_load n b = ?pre @ 0 # [0]" "beam_load n b = (?pre @ [0]) @ 0 # []"
    by (simp_all add: beam_load_def)
  show "beam_load n b ! 0 = 0" "beam_load n b ! 1 = 0"
    by (simp_all add: beam_load_def)
  have "beam_load n b ! length ?pre = 0"
    unfolding b(1) by (rule nth_append_length)
  then show "beam_load n b ! (n - 2) = 0" by (simp only: len)
  have "beam_load n b ! length (?pre @ [0]) = 0"
    unfolding b(2) by (rule nth_append_length)
  then show "beam_load n b ! (n - 1) = 0" by (simp only: len)
qed

section \<open>The assembled matrix and load\<close>

text \<open>
  Claim C1. For every \<open>N \<ge> 5\<close> and every body force, the matrix that the assembly returns has
  \<open>N\<close> rows; each interior row \<open>i\<close> with \<open>2 \<le> i \<le> N-3\<close> is exactly \<open>[1,-4,6,-4,1]\<close> at columns
  \<open>i-2..i+2\<close> between zeros; row \<open>0\<close> is \<open>[1]\<close> at column \<open>0\<close>, row \<open>1\<close> is \<open>[1,-1]\<close> at columns
  \<open>0..1\<close>, row \<open>N-2\<close> is \<open>[1,-2,1]\<close> at columns \<open>N-3..N-1\<close>, row \<open>N-1\<close> is \<open>[-1,3,-3,1]\<close> at
  columns \<open>N-4..N-1\<close>, and every other entry of these rows is zero.
\<close>

theorem assemble_matrix_rows:
  assumes "5 \<le> N"
  shows "\<exists>A f. assemble N b = Inr (A, f) \<and> length A = nat N
    \<and> A ! 0 = [1] @ replicate (nat N - 1) 0
    \<and> A ! 1 = [1, - 1] @ replicate (nat N - 2) 0
    \<and> (\<forall>i. 2 \<le> i \<and> i \<le> nat N - 3 \<longrightarrow>
          A ! i = replicate (i - 2) 0 @ [1, - 4, 6, - 4, 1] @ replicate (nat N - 3 - i) 0)
    \<and> A ! (nat N - 2) = replicate (nat N - 3) 0 @ [1, - 2, 1]
    \<and> A ! (nat N - 1) = replicate (nat N - 4) 0 @ [- 1, 3, - 3, 1]"
proof -
  define n where "n = nat N"
  have n: "N = int n" "5 \<le> n" using assms by (simp_all add: n_def)
  have a: "assemble N b = Inr (beam_matrix n, beam_load n b)"
    unfolding n(1) by (rule assemble_eq [OF n(2)])
  have i: "beam_matrix n ! i = replicate (i - 2) 0 @ [1, - 4, 6, - 4, 1] @ replicate (n - 3 - i) 0"
    if "2 \<le> i \<and> i \<le> n - 3" for i
  proof -
    from that n(2) have "2 \<le> i" "i + 3 \<le> n" by linarith+
    then show ?thesis by (simp add: beam_matrix_nth_interior interior_row_def)
  qed
  show ?thesis
    unfolding n_def [symmetric] a
    using beam_matrix_nth_boundary [OF n(2)] beam_matrix_length [of n] n(2) i by simp
qed

theorem assemble_matrix_rows_witness:
  "\<exists>A f. assemble 5 1 = Inr (A, f) \<and> length A = 5
    \<and> A ! 0 = [1, 0, 0, 0, 0] \<and> A ! 1 = [1, - 1, 0, 0, 0] \<and> A ! 2 = [1, - 4, 6, - 4, 1]
    \<and> A ! 3 = [0, 0, 1, - 2, 1] \<and> A ! 4 = [0, - 1, 3, - 3, 1]"
  using assemble_matrix_rows [of 5 1] by (auto simp: numeral_eq_Suc)

text \<open>
  Claim C2. For every \<open>N \<ge> 5\<close> and every body force \<open>b\<close>, with \<open>h = 1/(N-1)\<close>, the load vector
  that the assembly returns has \<open>N\<close> entries, the entry \<open>-b h\<^sup>4\<close> at every interior index
  \<open>2 \<le> i \<le> N-3\<close> and the entry \<open>0\<close> at the four boundary indices \<open>0\<close>, \<open>1\<close>, \<open>N-2\<close>, \<open>N-1\<close>.
\<close>

theorem assemble_load_entries:
  assumes "5 \<le> N"
  shows "\<exists>A f. assemble N b = Inr (A, f) \<and> length f = nat N
    \<and> (\<forall>i. 2 \<le> i \<and> i \<le> nat N - 3 \<longrightarrow> f ! i = - b * (1 / (real_of_int N - 1)) ^ 4)
    \<and> f ! 0 = 0 \<and> f ! 1 = 0 \<and> f ! (nat N - 2) = 0 \<and> f ! (nat N - 1) = 0"
proof -
  define n where "n = nat N"
  have n: "N = int n" "5 \<le> n" using assms by (simp_all add: n_def)
  have a: "assemble N b = Inr (beam_matrix n, beam_load n b)"
    unfolding n(1) by (rule assemble_eq [OF n(2)])
  have i: "beam_load n b ! i = - b * (1 / (real_of_int N - 1)) ^ 4"
    if "2 \<le> i \<and> i \<le> n - 3" for i
  proof -
    from that n(2) have "2 \<le> i" "i + 3 \<le> n" by linarith+
    then show ?thesis by (simp add: beam_load_nth_interior n(1))
  qed
  show ?thesis
    unfolding n_def [symmetric] a
    using beam_load_nth_boundary [OF n(2)] beam_load_length [of n] n(2) i by simp
qed

theorem assemble_load_entries_witness:
  "\<exists>A f. assemble 5 1 = Inr (A, f) \<and> length f = 5
    \<and> f ! 2 = - 1 / 256 \<and> f ! 0 = 0 \<and> f ! 1 = 0 \<and> f ! 3 = 0 \<and> f ! 4 = 0"
  using assemble_load_entries [of 5 1] by (auto simp: numeral_eq_Suc)

text \<open>
  Claim C9. For every \<open>N \<ge> 5\<close> and any two body forces, the two assemblies return the same
  matrix (so in particular the same four boundary rows) and load vectors that agree at the four
  boundary indices; the load vectors can differ at interior indices only.
\<close>

theorem boundary_independent_of_force:
  assumes "5 \<le> N"
  shows "\<exists>A f1 f2. assemble N b1 = Inr (A, f1) \<and> assemble N b2 = Inr (A, f2)
    \<and> f1 ! 0 = f2 ! 0 \<and> f1 ! 1 = f2 ! 1
    \<and> f1 ! (nat N - 2) = f2 ! (nat N - 2) \<and> f1 ! (nat N - 1) = f2 ! (nat N - 1)
    \<and> (\<forall>i < nat N. f1 ! i \<noteq> f2 ! i \<longrightarrow> 2 \<le> i \<and> i \<le> nat N - 3)"
proof -
  define n where "n = nat N"
  have n: "N = int n" "5 \<le> n" using assms by (simp_all add: n_def)
  have a: "assemble N b = Inr (beam_matrix n, beam_load n b)" for b
    unfolding n(1) by (rule assemble_eq [OF n(2)])
  have "2 \<le> i \<and> i \<le> n - 3" if "i < n" "beam_load n b1 ! i \<noteq> beam_load n b2 ! i" for i
  proof (rule ccontr)
    assume "\<not> (2 \<le> i \<and> i \<le> n - 3)"
    with that(1) n(2) have "i = 0 \<or> i = 1 \<or> i = n - 2 \<or> i = n - 1" by linarith
    with that(2) show False
      using beam_load_nth_boundary [OF n(2), of b1] beam_load_nth_boundary [OF n(2), of b2]
      by auto
  qed
  then show ?thesis
    unfolding n_def [symmetric] a
    using beam_load_nth_boundary [OF n(2)] by simp
qed

theorem boundary_independent_of_force_witness:
  "\<exists>A f1 f2. assemble 5 1 = Inr (A, f1) \<and> assemble 5 2 = Inr (A, f2)
    \<and> f1 ! 0 = f2 ! 0 \<and> f1 ! 1 = f2 ! 1 \<and> f1 ! 3 = f2 ! 3 \<and> f1 ! 4 = f2 ! 4"
  using boundary_independent_of_force [of 5 1 2] by (auto simp: numeral_eq_Suc)

lemma dot_ones: "length r \<le> n \<Longrightarrow> dot r (replicate n 1) = sum_list r"
proof (induction r arbitrary: n)
  case Nil
  then show ?case by simp
next
  case (Cons x r)
  then obtain m where "n = Suc m" by (cases n) simp_all
  with Cons show ?case by simp
qed

lemma sum_list_interior_row: "sum_list (interior_row n i) = 0"
  by (simp add: interior_row_def sum_list_replicate)

lemma mat_vec_beam_matrix_ones:
  assumes "5 \<le> n"
  shows "mat_vec (beam_matrix n) (replicate n 1) = 1 # replicate (n - 1) 0"
proof -
  have len: "length (interior_row n i) \<le> n" if "i \<in> set [2..<n - 2]" for i
    using that by (auto simp: interior_row_def)
  have mid: "map (\<lambda>row. dot row (replicate n 1)) (map (interior_row n) [2..<n - 2])
      = replicate (n - 4) 0"
  proof -
    have "map (\<lambda>row. dot row (replicate n 1)) (map (interior_row n) [2..<n - 2])
        = map (\<lambda>i. 0) [2..<n - 2]"
      unfolding map_map comp_def
      by (rule map_cong [OF refl]) (simp add: dot_ones len sum_list_interior_row)
    then show ?thesis by (simp add: map_replicate_const)
  qed
  have r: "dot (1 # replicate (n - 1) 0) (replicate n 1) = 1"
    "dot ([1, - 1] @ replicate (n - 2) 0) (replicate n 1) = 0"
    "dot (replicate (n - 3) 0 @ [1, - 2, 1]) (replicate n 1) = 0"
    "dot (replicate (n - 4) 0 @ [- 1, 3, - 3, 1]) (replicate n 1) = 0"
    using assms by (simp_all add: dot_ones sum_list_replicate)
  have "n - 1 = Suc (n - 4 + 2)" using assms by simp
  then have e: "[1, 0] @ replicate (n - 4) 0 @ [0, 0] = 1 # replicate (n - 1) (0::real)"
    by (simp only: replicate_Suc replicate_add) (simp add: numeral_2_eq_2)
  have "mat_vec (beam_matrix n) (replicate n 1) = [1, 0] @ replicate (n - 4) 0 @ [0, 0]"
    unfolding mat_vec_def beam_matrix_def map_append mid using r by simp
  then show ?thesis by (simp only: e)
qed

text \<open>
  Claim C10. For every \<open>N \<ge> 5\<close> and every body force, the assembled matrix applied to the
  all-ones vector of length \<open>N\<close> is the first standard basis vector \<open>(1, 0, ..., 0)\<close>: row \<open>0\<close>
  sums to one and every difference row sums to zero.
\<close>

theorem constants_annihilated:
  assumes "5 \<le> N"
  shows "\<exists>A f. assemble N b = Inr (A, f)
    \<and> mat_vec A (replicate (nat N) 1) = 1 # replicate (nat N - 1) 0"
proof -
  define n where "n = nat N"
  have n: "N = int n" "5 \<le> n" using assms by (simp_all add: n_def)
  have a: "assemble N b = Inr (beam_matrix n, beam_load n b)"
    unfolding n(1) by (rule assemble_eq [OF n(2)])
  show ?thesis
    unfolding n_def [symmetric] a using mat_vec_beam_matrix_ones [OF n(2)] by simp
qed

theorem constants_annihilated_witness:
  "\<exists>A f. assemble 5 1 = Inr (A, f) \<and> mat_vec A [1, 1, 1, 1, 1] = [1, 0, 0, 0, 0]"
  using constants_annihilated [of 5 1] by (auto simp: numeral_eq_Suc)

section \<open>Sizes below five\<close>

text \<open>
  Claim C7 says that every \<open>N < 5\<close> is refused with an \<^verbatim>\<open>InvalidDomainSize\<close> error at entry. The
  notebook has no size guard and no such error: with \<open>N = 4\<close> the interior loops are empty, the
  four boundary writes fit, and the assembly returns a matrix and a load.
\<close>

theorem assemble_size_four:
  "assemble 4 1 = Inr ([[1, 0, 0, 0], [1, - 1, 0, 0], [0, 1, - 2, 1], [- 1, 3, - 3, 1]], [0, 0, 0, 0])"
  by (simp add: assemble_def float_div_def zeros_def zeros2_def py_range_def setitem_def
      setitem2_def setslice2_def setslice_def slice_bound_def norm_index_def numeral_eq_Suc)

lemma assemble_4: "assemble 4 b = Inr ([[1, 0, 0, 0], [1, - 1, 0, 0], [0, 1, - 2, 1], [- 1, 3, - 3, 1]], [0, 0, 0, 0])"
  by (simp add: assemble_def float_div_def zeros_def zeros2_def py_range_def setitem_def
      setitem2_def setslice2_def setslice_def slice_bound_def norm_index_def numeral_eq_Suc)

lemma assemble_3: "assemble 3 b = Inl ValueError"
  by (simp add: assemble_def float_div_def zeros_def zeros2_def py_range_def setitem_def
      setitem2_def setslice2_def setslice_def slice_bound_def norm_index_def numeral_eq_Suc)

lemma assemble_2: "assemble 2 b = Inl ValueError"
  by (simp add: assemble_def float_div_def zeros_def zeros2_def py_range_def setitem_def
      setitem2_def setslice2_def setslice_def slice_bound_def norm_index_def numeral_eq_Suc)

lemma assemble_1: "assemble 1 b = Inl ZeroDivisionError"
  by (simp add: assemble_def float_div_def)

lemma assemble_0: "assemble 0 b = Inl IndexError"
  by (simp add: assemble_def float_div_def zeros_def zeros2_def py_range_def setitem_def
      setitem2_def setslice2_def setslice_def slice_bound_def norm_index_def numeral_eq_Suc)

lemma assemble_negative: "N < 0 \<Longrightarrow> assemble N b = Inl ValueError"
  by (simp add: assemble_def float_div_def zeros2_def)

text \<open>
  Claim C7 as amended. For \<open>N < 5\<close> nothing is checked at entry. \<open>N = 4\<close> is assembled: the
  result is the four boundary rows and the zero load. Every \<open>N \<le> 3\<close> fails, with the exception
  that Python or numpy raises where the construction breaks: \<^verbatim>\<open>ZeroDivisionError\<close> from the
  grid spacing for \<open>N = 1\<close>, \<^verbatim>\<open>IndexError\<close> from the first boundary write for \<open>N = 0\<close>,
  \<^verbatim>\<open>ValueError\<close> from a boundary slice that is too short for \<open>N = 2\<close> and \<open>N = 3\<close>, and
  \<^verbatim>\<open>ValueError\<close> from \<^verbatim>\<open>np.zeros\<close> for a negative \<open>N\<close>.
\<close>

theorem assemble_below_five:
  assumes "N < 5"
  shows "assemble N b =
    (if N = 4
     then Inr ([[1, 0, 0, 0], [1, - 1, 0, 0], [0, 1, - 2, 1], [- 1, 3, - 3, 1]], [0, 0, 0, 0])
     else if N = 1 then Inl ZeroDivisionError
     else if N = 0 then Inl IndexError
     else Inl ValueError)"
proof -
  consider "N < 0" | "N = 0" | "N = 1" | "N = 2" | "N = 3" | "N = 4"
    using assms by linarith
  then show ?thesis
    by cases (simp_all add: assemble_negative assemble_0 assemble_1 assemble_2 assemble_3 assemble_4)
qed

theorem assemble_below_five_witness: "assemble 2 1 = Inl ValueError \<and> assemble 1 1 = Inl ZeroDivisionError"
  using assemble_below_five [of 2 1] assemble_below_five [of 1 1] by simp

section \<open>The analytical reference\<close>

lemma linspace_unit:
  assumes "2 \<le> m"
  shows "linspace 0 1 m = Inr ((map (\<lambda>k. real k * (1 / real_of_int (m - 1))) [0..<nat m])[nat m - 1 := 1])"
  using assms by (simp add: linspace_def Let_def comp_def)

lemma linspace_unit_nth:
  assumes "2 \<le> m" "k < nat m"
  shows "(map (\<lambda>k. real k * (1 / real_of_int (m - 1))) [0..<nat m])[nat m - 1 := 1] ! k
       = real k / (real_of_int m - 1)"
proof (cases "k = nat m - 1")
  case True
  then have "real k = real_of_int m - 1" using assms by simp
  with assms True show ?thesis by simp
next
  case False
  with assms show ?thesis by simp
qed

text \<open>
  Claim C6. For every body force \<open>b\<close> and every sample count \<open>m \<ge> 2\<close>, the reference returns \<open>m\<close>
  abscissae and \<open>m\<close> values; the abscissae are \<open>x\<^sub>k = k/(m-1)\<close>, uniformly spaced from \<open>0\<close> to
  \<open>1\<close>, and the value at each is \<open>-b x\<^sub>k\<^sup>2 (1/4 - x\<^sub>k/6 + x\<^sub>k\<^sup>2/24)\<close>. The last sample is at
  \<open>x = 1\<close>, where the value is \<open>-b/8\<close>: with \<open>b = 1\<close> it is \<open>-0.125\<close>.
\<close>

theorem reference_samples:
  assumes "2 \<le> m"
  shows "\<exists>xs us. reference b m = Inr (xs, us) \<and> length xs = nat m \<and> length us = nat m
    \<and> (\<forall>k < nat m. xs ! k = real k / (real_of_int m - 1)
          \<and> us ! k = - b * (xs ! k) ^ 2 * (1 / 4 - xs ! k / 6 + (xs ! k) ^ 2 / 24))
    \<and> xs ! (nat m - 1) = 1 \<and> us ! (nat m - 1) = - b * 0.125"
proof -
  define xs where "xs = (map (\<lambda>k. real k * (1 / real_of_int (m - 1))) [0..<nat m])[nat m - 1 := 1]"
  define u where "u = (\<lambda>x. - b * x ^ 2 * (1 / 4 - x / 6 + x ^ 2 / 24))"
  have r: "reference b m = Inr (xs, map u xs)"
    unfolding reference_def linspace_unit [OF assms] xs_def u_def by simp
  have len: "length xs = nat m" by (simp add: xs_def)
  have x: "xs ! k = real k / (real_of_int m - 1)" if "k < nat m" for k
    unfolding xs_def using assms that by (rule linspace_unit_nth)
  have last: "xs ! (nat m - 1) = 1"
    using assms by (simp add: xs_def)
  have un: "map u xs ! k = - b * (xs ! k) ^ 2 * (1 / 4 - xs ! k / 6 + (xs ! k) ^ 2 / 24)"
    if "k < nat m" for k
    using that len by (simp add: u_def)
  have "nat m - 1 < nat m" using assms by simp
  then have ul: "map u xs ! (nat m - 1) = - b * 0.125"
    unfolding un [OF \<open>nat m - 1 < nat m\<close>] last by simp
  have lenu: "length (map u xs) = nat m" using len by simp
  show ?thesis
  proof (intro exI conjI allI impI)
    show "reference b m = Inr (xs, map u xs)" by (rule r)
    show "length xs = nat m" by (rule len)
    show "length (map u xs) = nat m" by (rule lenu)
    show "xs ! k = real k / (real_of_int m - 1)" if "k < nat m" for k by (rule x [OF that])
    show "map u xs ! k = - b * (xs ! k) ^ 2 * (1 / 4 - xs ! k / 6 + (xs ! k) ^ 2 / 24)"
      if "k < nat m" for k by (rule un [OF that])
    show "xs ! (nat m - 1) = 1" by (rule last)
    show "map u xs ! (nat m - 1) = - b * 0.125" by (rule ul)
  qed
qed



theorem reference_samples_witness:
  "\<exists>xs us. reference 1 5 = Inr (xs, us) \<and> length xs = 5 \<and> length us = 5
     \<and> xs ! 2 = 1 / 2 \<and> xs ! 4 = 1 \<and> us ! 4 = - 0.125"
proof -
  obtain xs us where r: "reference 1 5 = Inr (xs, us)" and l: "length xs = 5" "length us = 5"
    and k: "\<forall>k < 5. xs ! k = real k / 4
          \<and> us ! k = - 1 * (xs ! k) ^ 2 * (1 / 4 - xs ! k / 6 + (xs ! k) ^ 2 / 24)"
    and e: "xs ! 4 = 1" "us ! 4 = - 0.125"
    using reference_samples [of 5 1] by auto
  have "xs ! 2 = 1 / 2" using k [rule_format, of 2] by simp
  with r l e show ?thesis by blast
qed

section \<open>The elimination solves the system\<close>

lemma dot_Nil [simp]: "dot [] ys = 0" "dot xs [] = 0"
  by (cases xs; simp)+

lemma dot_map2_sub:
  "length as = length ps \<Longrightarrow>
   dot (map2 (\<lambda>a b. a - m * b) as ps) xs = dot as xs - m * dot ps xs"
proof (induction as ps arbitrary: xs rule: list_induct2)
  case Nil
  then show ?case by simp
next
  case (Cons a as p ps)
  then show ?case by (cases xs) (simp_all add: algebra_simps)
qed

lemma dot_replicate_zero [simp]: "dot (replicate k 0) xs = 0"
  by (induction k arbitrary: xs) (simp, case_tac xs, simp_all)

lemma dot_zero_right [simp]: "dot r (replicate n 0) = 0"
  by (induction r arbitrary: n) (simp, case_tac n, simp_all)

lemma dot_sub_right:
  "length u = length v \<Longrightarrow> dot r (map2 (-) u v) = dot r u - dot r v"
proof (induction u v arbitrary: r rule: list_induct2)
  case Nil
  then show ?case by simp
next
  case (Cons a u b v)
  then show ?case by (cases r) (simp_all add: algebra_simps)
qed

lemma dot_scale_right: "dot r (map ((*) c) u) = c * dot r u"
proof (induction r arbitrary: u)
  case Nil
  then show ?case by simp
next
  case (Cons a r)
  then show ?case by (cases u) (simp_all add: algebra_simps)
qed

lemma argmax_abs_less: "xs \<noteq> [] \<Longrightarrow> argmax_abs xs < length xs"
  by (induction xs rule: argmax_abs.induct) (simp_all add: Let_def)

lemma argmax_abs_max: "x \<in> set xs \<Longrightarrow> \<bar>x\<bar> \<le> \<bar>xs ! argmax_abs xs\<bar>"
proof (induction xs rule: argmax_abs.induct)
  case 1
  then show ?case by simp
next
  case (2 y)
  then show ?case by simp
next
  case (3 y z zs)
  show ?case
  proof (cases "x = y")
    case True
    then show ?thesis by (simp add: Let_def)
  next
    case False
    with "3.prems" have "x \<in> set (z # zs)" by simp
    from "3.IH" [OF this] show ?thesis by (auto simp: Let_def)
  qed
qed

lemma set_pivot_split:
  assumes "p < length rows"
  shows "set rows = insert (rows ! p) (set (tl (rows[p := hd rows])))"
proof (cases rows)
  case Nil
  with assms show ?thesis by simp
next
  case (Cons r rs)
  show ?thesis
  proof (cases p)
    case 0
    with Cons show ?thesis by simp
  next
    case (Suc q)
    with assms Cons have q: "q < length rs" by simp
    have "set (rs[q := r]) = insert r (set (take q rs) \<union> set (drop (Suc q) rs))"
      using q by (simp add: upd_conv_take_nth_drop Un_commute insert_commute)
    moreover have "set rs = insert (rs ! q) (set (take q rs) \<union> set (drop (Suc q) rs))"
      using q by (metis id_take_nth_drop list.simps(15) set_append Un_insert_right)
    ultimately show ?thesis using Cons Suc by auto
  qed
qed


lemma eliminate_length:
  assumes "length (fst r) = Suc n" "length (fst p) = Suc n"
  shows "length (fst (eliminate p r)) = n"
  using assms by (simp add: eliminate_def Let_def)

lemma eliminate_dot:
  assumes "length (fst r) = Suc n" "length (fst p) = Suc n"
  shows "dot (fst (eliminate p r)) xs
       = dot (tl (fst r)) xs - hd (fst r) / hd (fst p) * dot (tl (fst p)) xs"
  unfolding eliminate_def Let_def fst_conv
  by (rule dot_map2_sub) (use assms in simp)

lemma eliminate_snd: "snd (eliminate p r) = snd r - hd (fst r) / hd (fst p) * snd p"
  by (simp add: eliminate_def Let_def)

lemma dot_Cons_row:
  assumes "length (fst r) = Suc n"
  shows "dot (fst r) (x # xs) = hd (fst r) * x + dot (tl (fst r)) xs"
  using assms by (cases "fst r") simp_all

lemma back_substitute:
  assumes r: "length (fst r) = Suc n" and p: "length (fst p) = Suc n"
    and nz: "hd (fst p) \<noteq> 0"
    and e: "dot (fst (eliminate p r)) xs = snd (eliminate p r)"
  shows "dot (fst r) ((snd p - dot (tl (fst p)) xs) / hd (fst p) # xs) = snd r"
proof -
  from e have "dot (tl (fst r)) xs - hd (fst r) / hd (fst p) * dot (tl (fst p)) xs
      = snd r - hd (fst r) / hd (fst p) * snd p"
    by (simp only: eliminate_dot [OF r p] eliminate_snd)
  then show ?thesis
    unfolding dot_Cons_row [OF r] using nz by (simp add: field_simps)
qed

lemma pivot_row_solved:
  assumes p: "length (fst p) = Suc n" and nz: "hd (fst p) \<noteq> 0"
  shows "dot (fst p) ((snd p - dot (tl (fst p)) xs) / hd (fst p) # xs) = snd p"
  unfolding dot_Cons_row [OF p] using nz by (simp add: field_simps)

lemma gauss_Suc_Inr:
  assumes "gauss (Suc n) rows = Inr xs"
  obtains ys where
    "hd (fst (rows ! argmax_abs (map (\<lambda>r. hd (fst r)) rows))) \<noteq> 0"
    "gauss n (map (eliminate (rows ! argmax_abs (map (\<lambda>r. hd (fst r)) rows)))
        (tl (rows[argmax_abs (map (\<lambda>r. hd (fst r)) rows) := hd rows]))) = Inr ys"
    "xs = (snd (rows ! argmax_abs (map (\<lambda>r. hd (fst r)) rows))
            - dot (tl (fst (rows ! argmax_abs (map (\<lambda>r. hd (fst r)) rows)))) ys)
          / hd (fst (rows ! argmax_abs (map (\<lambda>r. hd (fst r)) rows))) # ys"
  using assms by (auto simp: Let_def split: if_splits sum.splits)

lemma gauss_sound:
  assumes "gauss n rows = Inr xs" "length rows = n" "\<forall>r\<in>set rows. length (fst r) = n"
  shows "length xs = n \<and> (\<forall>r\<in>set rows. dot (fst r) xs = snd r)"
  using assms
proof (induction n arbitrary: rows xs)
  case 0
  then show ?case by simp
next
  case (Suc n)
  define p where "p = argmax_abs (map (\<lambda>r. hd (fst r)) rows)"
  define piv where "piv = rows ! p"
  define rest where "rest = tl (rows[p := hd rows])"
  from Suc.prems(1) obtain ys where nz: "hd (fst piv) \<noteq> 0"
    and g: "gauss n (map (eliminate piv) rest) = Inr ys"
    and xs: "xs = (snd piv - dot (tl (fst piv)) ys) / hd (fst piv) # ys"
    unfolding piv_def rest_def p_def by (rule gauss_Suc_Inr)
  have "rows \<noteq> []" using Suc.prems(2) by auto
  then have pl: "p < length rows"
    using argmax_abs_less [of "map (\<lambda>r. hd (fst r)) rows"] by (simp add: p_def)
  have split: "set rows = insert piv (set rest)"
    unfolding piv_def rest_def by (rule set_pivot_split [OF pl])
  have lp: "length (fst piv) = Suc n" using Suc.prems(3) split by simp
  have lr: "length (fst r) = Suc n" if "r \<in> set rest" for r
    using Suc.prems(3) split that by simp
  have "length ys = n \<and> (\<forall>e\<in>set (map (eliminate piv) rest). dot (fst e) ys = snd e)"
  proof (rule Suc.IH [OF g])
    show "length (map (eliminate piv) rest) = n"
      using Suc.prems(2) by (simp add: rest_def)
    show "\<forall>e\<in>set (map (eliminate piv) rest). length (fst e) = n"
      using lr lp by (auto simp: eliminate_length)
  qed
  then have ly: "length ys = n"
    and ih: "\<And>r. r \<in> set rest \<Longrightarrow> dot (fst (eliminate piv r)) ys = snd (eliminate piv r)"
    by auto
  have "dot (fst r) xs = snd r" if "r \<in> set rows" for r
  proof (cases "r = piv")
    case True
    then show ?thesis unfolding xs by (simp add: pivot_row_solved [OF lp nz])
  next
    case False
    with that split have "r \<in> set rest" by auto
    then show ?thesis
      unfolding xs by (intro back_substitute [OF lr lp nz ih])
  qed
  with ly xs show ?case by simp
qed


lemma gauss_complete:
  assumes "length rows = n" "\<forall>r\<in>set rows. length (fst r) = n"
    and "\<And>xs. length xs = n \<Longrightarrow> (\<forall>r\<in>set rows. dot (fst r) xs = 0) \<Longrightarrow> xs = replicate n 0"
  shows "\<exists>xs. gauss n rows = Inr xs"
  using assms
proof (induction n arbitrary: rows)
  case 0
  then show ?case by simp
next
  case (Suc n)
  define p where "p = argmax_abs (map (\<lambda>r. hd (fst r)) rows)"
  define piv where "piv = rows ! p"
  define rest where "rest = tl (rows[p := hd rows])"
  have "rows \<noteq> []" using Suc.prems(1) by auto
  then have pl: "p < length rows"
    using argmax_abs_less [of "map (\<lambda>r. hd (fst r)) rows"] by (simp add: p_def)
  have split: "set rows = insert piv (set rest)"
    unfolding piv_def rest_def by (rule set_pivot_split [OF pl])
  have lp: "length (fst piv) = Suc n" using Suc.prems(2) split by simp
  have lr: "length (fst r) = Suc n" if "r \<in> set rest" for r
    using Suc.prems(2) split that by simp
  have nz: "hd (fst piv) \<noteq> 0"
  proof
    assume z: "hd (fst piv) = 0"
    have "hd (fst r) = 0" if "r \<in> set rows" for r
    proof -
      from that have "hd (fst r) \<in> set (map (\<lambda>r. hd (fst r)) rows)" by simp
      from argmax_abs_max [OF this]
      have "\<bar>hd (fst r)\<bar> \<le> \<bar>hd (fst piv)\<bar>" using pl by (simp add: p_def piv_def)
      with z show ?thesis by simp
    qed
    then have "\<forall>r\<in>set rows. dot (fst r) (1 # replicate n 0) = 0"
      using Suc.prems(2) by (simp add: dot_Cons_row)
    from Suc.prems(3) [OF _ this] show False by simp
  qed
  have "\<exists>ys. gauss n (map (eliminate piv) rest) = Inr ys"
  proof (rule Suc.IH)
    show "length (map (eliminate piv) rest) = n"
      using Suc.prems(1) by (simp add: rest_def)
    show "\<forall>e\<in>set (map (eliminate piv) rest). length (fst e) = n"
      using lr lp by (auto simp: eliminate_length)
    fix ys :: "real list"
    assume ly: "length ys = n"
      and k: "\<forall>e\<in>set (map (eliminate piv) rest). dot (fst e) ys = 0"
    define x0 where "x0 = - dot (tl (fst piv)) ys / hd (fst piv)"
    have "dot (fst r) (x0 # ys) = 0" if "r \<in> set rows" for r
    proof (cases "r = piv")
      case True
      then show ?thesis
        unfolding dot_Cons_row [OF lp] True x0_def using nz by simp
    next
      case False
      with that split have r: "r \<in> set rest" by auto
      with k have "dot (fst (eliminate piv r)) ys = 0" by simp
      then have "dot (tl (fst r)) ys = hd (fst r) / hd (fst piv) * dot (tl (fst piv)) ys"
        by (simp add: eliminate_dot [OF lr [OF r] lp])
      then show ?thesis
        unfolding dot_Cons_row [OF lr [OF r]] x0_def by simp
    qed
    then have "x0 # ys = replicate (Suc n) 0"
      using Suc.prems(3) [of "x0 # ys"] ly by simp
    then show "ys = replicate n 0" by simp
  qed
  then obtain ys where "gauss n (map (eliminate piv) rest) = Inr ys" ..
  with nz show ?case
    by (simp add: Let_def p_def [symmetric] piv_def [symmetric] rest_def [symmetric])
qed

section \<open>The beam matrix has a trivial kernel\<close>

lemma differences_vanish:
  fixes u :: "nat \<Rightarrow> real"
  assumes n: "5 \<le> n"
    and r0: "u 0 = 0"
    and r1: "u 0 - u 1 = 0"
    and ri: "\<And>k. k + 5 \<le> n \<Longrightarrow> u k - 4 * u (k + 1) + 6 * u (k + 2) - 4 * u (k + 3) + u (k + 4) = 0"
    and r2: "u (n - 3) - 2 * u (n - 2) + u (n - 1) = 0"
    and r3: "- u (n - 4) + 3 * u (n - 3) - 3 * u (n - 2) + u (n - 1) = 0"
    and k: "k < n"
  shows "u k = 0"
proof -
  define m where "m = n - 4"
  have nm: "n = m + 4" "1 \<le> m" using n by (simp_all add: m_def)
  have e: "n - 4 = m" "n - 3 = m + 1" "n - 2 = m + 2" "n - 1 = m + 3"
    using nm by simp_all
  have d3: "u (m - j + 3) - 3 * u (m - j + 2) + 3 * u (m - j + 1) - u (m - j) = 0" if "j \<le> m" for j
    using that
  proof (induction j)
    case 0
    have z: "m - 0 = m" by simp
    from r3 have "u (m + 3) - 3 * u (m + 2) + 3 * u (m + 1) - u m = 0" unfolding e by linarith
    then show ?case unfolding z .
  next
    case (Suc j)
    define i where "i = m - Suc j"
    have i: "m - j = i + 1" "i + 5 \<le> n" using Suc.prems nm by (simp_all add: i_def)
    have idx: "i + 1 + 3 = i + 4" "i + 1 + 2 = i + 3" "i + 1 + 1 = i + 2" by simp_all
    from Suc.prems have "j \<le> m" by simp
    from Suc.IH [OF this] have "u (i + 4) - 3 * u (i + 3) + 3 * u (i + 2) - u (i + 1) = 0"
      unfolding i(1) idx .
    with ri [OF i(2)] show ?case
      unfolding i_def [symmetric] by linarith
  qed
  have d3': "u (i + 3) - 3 * u (i + 2) + 3 * u (i + 1) - u i = 0" if "i \<le> m" for i
    using d3 [of "m - i"] that by simp
  have d2: "u (m + 1 - j + 2) - 2 * u (m + 1 - j + 1) + u (m + 1 - j) = 0" if "j \<le> m + 1" for j
    using that
  proof (induction j)
    case 0
    have z: "m + 1 - 0 = m + 1" "m + 1 + 2 = m + 3" "m + 1 + 1 = m + 2" by simp_all
    from r2 have "u (m + 3) - 2 * u (m + 2) + u (m + 1) = 0" unfolding e by linarith
    then show ?case unfolding z .
  next
    case (Suc j)
    define i where "i = m + 1 - Suc j"
    have i: "m + 1 - j = i + 1" "i \<le> m" using Suc.prems by (simp_all add: i_def)
    have idx: "i + 1 + 2 = i + 3" "i + 1 + 1 = i + 2" by simp_all
    from Suc.prems have "j \<le> m + 1" by simp
    from Suc.IH [OF this] have "u (i + 3) - 2 * u (i + 2) + u (i + 1) = 0"
      unfolding i(1) idx .
    with d3' [OF i(2)] show ?case
      unfolding i_def [symmetric] by linarith
  qed
  have d2': "u (i + 2) - 2 * u (i + 1) + u i = 0" if "i \<le> m + 1" for i
    using d2 [of "m + 1 - i"] that by simp
  have d1: "u (i + 1) - u i = 0" if "i \<le> m + 2" for i
    using that
  proof (induction i)
    case 0
    with r1 show ?case by simp
  next
    case (Suc i)
    then have "i \<le> m + 1" and a: "u (i + 1) - u i = 0" by simp_all
    from d2' [OF this(1)] a have "u (i + 2) - u (i + 1) = 0" by linarith
    then show ?case by (simp add: numeral_2_eq_2)
  qed
  have "u i = 0" if "i \<le> m + 3" for i
    using that
  proof (induction i)
    case 0
    with r0 show ?case by simp
  next
    case (Suc i)
    then have "i \<le> m + 2" "u i = 0" by simp_all
    with d1 [of i] show ?case by simp
  qed
  with k nm show ?thesis by simp
qed


lemma dot_shift: "dot (replicate k 0 @ cs) u = dot cs (drop k u)"
proof (induction k arbitrary: u)
  case 0
  then show ?case by simp
next
  case (Suc k)
  then show ?case by (cases u) simp_all
qed

lemma dot_append_zeros: "dot (cs @ replicate m 0) u = dot cs u"
proof (induction cs arbitrary: u)
  case Nil
  then show ?case by simp
next
  case (Cons c cs)
  then show ?case by (cases u) simp_all
qed

lemma dot_drop_Cons:
  "k < length u \<Longrightarrow> dot (c # cs) (drop k u) = c * u ! k + dot cs (drop (Suc k) u)"
  by (simp add: Cons_nth_drop_Suc [symmetric])

lemma mat_vec_nth: "i < length A \<Longrightarrow> mat_vec A u ! i = dot (A ! i) u"
  by (simp add: mat_vec_def)

lemma mat_vec_length [simp]: "length (mat_vec A u) = length A"
  by (simp add: mat_vec_def)

lemma beam_rows_dot:
  assumes n: "5 \<le> n" and u: "length u = n"
  shows "dot (beam_matrix n ! 0) u = u ! 0"
    and "dot (beam_matrix n ! 1) u = u ! 0 - u ! 1"
    and "\<And>k. k + 5 \<le> n \<Longrightarrow> dot (beam_matrix n ! (k + 2)) u
          = u ! k - 4 * u ! (k + 1) + 6 * u ! (k + 2) - 4 * u ! (k + 3) + u ! (k + 4)"
    and "dot (beam_matrix n ! (n - 2)) u = u ! (n - 3) - 2 * u ! (n - 2) + u ! (n - 1)"
    and "dot (beam_matrix n ! (n - 1)) u
          = - u ! (n - 4) + 3 * u ! (n - 3) - 3 * u ! (n - 2) + u ! (n - 1)"
proof -
  have "dot ([1] @ replicate (n - 1) 0) u = u ! 0"
    unfolding dot_append_zeros using dot_drop_Cons [of 0 u 1 "[]"] n u by simp
  then show "dot (beam_matrix n ! 0) u = u ! 0"
    by (simp add: beam_matrix_nth_boundary(1) [OF n])
  have "dot ([1, - 1] @ replicate (n - 2) 0) u = u ! 0 - u ! 1"
    unfolding dot_append_zeros
    using dot_drop_Cons [of 0 u 1 "[- 1]"] dot_drop_Cons [of 1 u "- 1" "[]"] n u by simp
  then show "dot (beam_matrix n ! 1) u = u ! 0 - u ! 1"
    by (simp only: beam_matrix_nth_boundary(2) [OF n])
  show "dot (beam_matrix n ! (k + 2)) u
      = u ! k - 4 * u ! (k + 1) + 6 * u ! (k + 2) - 4 * u ! (k + 3) + u ! (k + 4)"
    if k: "k + 5 \<le> n" for k
  proof -
    have s: "Suc k = k + 1" "Suc (k + 1) = k + 2" "Suc (k + 2) = k + 3" "Suc (k + 3) = k + 4"
      by simp_all
    have "dot ([1, - 4, 6, - 4, 1] @ replicate (n - 3 - (k + 2)) 0) (drop k u)
        = u ! k - 4 * u ! (k + 1) + 6 * u ! (k + 2) - 4 * u ! (k + 3) + u ! (k + 4)"
      unfolding dot_append_zeros
      using dot_drop_Cons [of k u 1 "[- 4, 6, - 4, 1]"] dot_drop_Cons [of "k + 1" u "- 4" "[6, - 4, 1]"]
        dot_drop_Cons [of "k + 2" u 6 "[- 4, 1]"] dot_drop_Cons [of "k + 3" u "- 4" "[1]"]
        dot_drop_Cons [of "k + 4" u 1 "[]"] k u
      unfolding s by simp
    moreover have "beam_matrix n ! (k + 2)
        = replicate k 0 @ [1, - 4, 6, - 4, 1] @ replicate (n - 3 - (k + 2)) 0"
      using beam_matrix_nth_interior [of "k + 2" n] k by (simp add: interior_row_def)
    ultimately show ?thesis by (simp only: dot_shift)
  qed
  have e: "Suc (n - 3) = n - 2" "Suc (n - 2) = n - 1" "Suc (n - 4) = n - 3" using n by simp_all
  have "dot [1, - 2, 1] (drop (n - 3) u) = u ! (n - 3) - 2 * u ! (n - 2) + u ! (n - 1)"
    using dot_drop_Cons [of "n - 3" u 1 "[- 2, 1]"] dot_drop_Cons [of "n - 2" u "- 2" "[1]"]
      dot_drop_Cons [of "n - 1" u 1 "[]"] n u
    unfolding e by simp
  then show "dot (beam_matrix n ! (n - 2)) u = u ! (n - 3) - 2 * u ! (n - 2) + u ! (n - 1)"
    by (simp only: beam_matrix_nth_boundary(3) [OF n] dot_shift)
  have "dot [- 1, 3, - 3, 1] (drop (n - 4) u)
      = - u ! (n - 4) + 3 * u ! (n - 3) - 3 * u ! (n - 2) + u ! (n - 1)"
    using dot_drop_Cons [of "n - 4" u "- 1" "[3, - 3, 1]"] dot_drop_Cons [of "n - 3" u 3 "[- 3, 1]"]
      dot_drop_Cons [of "n - 2" u "- 3" "[1]"] dot_drop_Cons [of "n - 1" u 1 "[]"] n u
    unfolding e by simp
  then show "dot (beam_matrix n ! (n - 1)) u
      = - u ! (n - 4) + 3 * u ! (n - 3) - 3 * u ! (n - 2) + u ! (n - 1)"
    by (simp only: beam_matrix_nth_boundary(4) [OF n] dot_shift)
qed

lemma beam_kernel:
  assumes n: "5 \<le> n" and u: "length u = n"
    and z: "mat_vec (beam_matrix n) u = replicate n 0"
  shows "u = replicate n 0"
proof -
  have row: "dot (beam_matrix n ! i) u = 0" if "i < n" for i
    using mat_vec_nth [of i "beam_matrix n" u] that n z by (simp add: beam_matrix_length)
  note d = beam_rows_dot [OF n u]
  have "u ! k = 0" if "k < n" for k
  proof (rule differences_vanish [of n "\<lambda>k. u ! k", OF n _ _ _ _ _ that])
    show "u ! 0 = 0" using row [of 0] d(1) n by simp
    show "u ! 0 - u ! 1 = 0" using row [of 1] d(2) n by simp
    show "u ! k - 4 * u ! (k + 1) + 6 * u ! (k + 2) - 4 * u ! (k + 3) + u ! (k + 4) = 0"
      if "k + 5 \<le> n" for k
      using row [of "k + 2"] d(3) [OF that] that by simp
    show "u ! (n - 3) - 2 * u ! (n - 2) + u ! (n - 1) = 0"
      using row [of "n - 2"] d(4) n by simp
    show "- u ! (n - 4) + 3 * u ! (n - 3) - 3 * u ! (n - 2) + u ! (n - 1) = 0"
      using row [of "n - 1"] d(5) n by simp
  qed
  with u show ?thesis by (simp add: list_eq_iff_nth_eq)
qed

section \<open>The solve on the assembled system\<close>

lemma mat_vec_eq_iff:
  assumes "length f = length A"
  shows "mat_vec A u = f \<longleftrightarrow> (\<forall>r\<in>set (zip A f). dot (fst r) u = snd r)"
proof
  assume e: "mat_vec A u = f"
  show "\<forall>r\<in>set (zip A f). dot (fst r) u = snd r"
  proof
    fix r assume "r \<in> set (zip A f)"
    then obtain i where i: "i < length A" "r = (A ! i, f ! i)"
      using assms by (auto simp: set_zip)
    with e mat_vec_nth [of i A u] show "dot (fst r) u = snd r" by auto
  qed
next
  assume a: "\<forall>r\<in>set (zip A f). dot (fst r) u = snd r"
  have "mat_vec A u ! i = f ! i" if "i < length A" for i
  proof -
    have "(A ! i, f ! i) \<in> set (zip A f)" using that assms by (auto simp: set_zip)
    with a have "dot (A ! i) u = f ! i" by fastforce
    with that show ?thesis by (simp add: mat_vec_nth)
  qed
  with assms show "mat_vec A u = f" by (simp add: list_eq_iff_nth_eq)
qed

lemma solve_sound:
  assumes "solve A f = Inr u"
  shows "length u = length A \<and> mat_vec A u = f"
proof -
  from assms have sq: "\<forall>row\<in>set A. length row = length A" and lf: "length f = length A"
    and g: "gauss (length A) (zip A f) = Inr u"
    by (auto simp: solve_def split: if_splits)
  have "length u = length A \<and> (\<forall>r\<in>set (zip A f). dot (fst r) u = snd r)"
  proof (rule gauss_sound [OF g])
    show "length (zip A f) = length A" using lf by simp
    show "\<forall>r\<in>set (zip A f). length (fst r) = length A"
      using sq by (auto dest: set_zip_leftD)
  qed
  then show ?thesis by (simp add: mat_vec_eq_iff [OF lf])
qed

lemma solve_complete:
  assumes sq: "\<forall>row\<in>set A. length row = length A" and lf: "length f = length A"
    and ker: "\<And>x. length x = length A \<Longrightarrow> mat_vec A x = replicate (length A) 0
                \<Longrightarrow> x = replicate (length A) 0"
  shows "\<exists>u. solve A f = Inr u"
proof -
  have "\<exists>u. gauss (length A) (zip A f) = Inr u"
  proof (rule gauss_complete)
    show "length (zip A f) = length A" using lf by simp
    show "\<forall>r\<in>set (zip A f). length (fst r) = length A"
      using sq by (auto dest: set_zip_leftD)
    fix xs :: "real list"
    assume lx: "length xs = length A"
      and z: "\<forall>r\<in>set (zip A f). dot (fst r) xs = 0"
    have "mat_vec A xs ! i = 0" if "i < length A" for i
    proof -
      have "(A ! i, f ! i) \<in> set (zip A f)" using that lf by (auto simp: set_zip)
      with z have "dot (A ! i) xs = 0" by fastforce
      with that show ?thesis by (simp add: mat_vec_nth)
    qed
    then have "mat_vec A xs = replicate (length A) 0"
      by (simp add: list_eq_iff_nth_eq)
    with lx show "xs = replicate (length A) 0" by (rule ker)
  qed
  with sq lf show ?thesis by (auto simp: solve_def)
qed

lemma mat_vec_sub:
  assumes "length u = length v"
  shows "mat_vec A (map2 (-) u v) = map2 (-) (mat_vec A u) (mat_vec A v)"
proof -
  have "map (\<lambda>row. dot row (map2 (-) u v)) A = map (\<lambda>row. dot row u - dot row v) A"
    by (simp add: dot_sub_right [OF assms])
  also have "\<dots> = map2 (-) (map (\<lambda>row. dot row u) A) (map (\<lambda>row. dot row v) A)"
    by (induction A) simp_all
  finally show ?thesis by (simp only: mat_vec_def)
qed

lemma mat_vec_scale: "mat_vec A (map ((*) c) u) = map ((*) c) (mat_vec A u)"
  by (simp add: mat_vec_def dot_scale_right)

lemma solution_unique:
  assumes ker: "\<And>x. length x = n \<Longrightarrow> mat_vec A x = replicate (length A) 0 \<Longrightarrow> x = replicate n 0"
    and lu: "length u = n" and lv: "length v = n"
    and e: "mat_vec A u = mat_vec A v"
  shows "u = v"
proof -
  have "mat_vec A (map2 (-) u v) = map2 (-) (mat_vec A v) (mat_vec A v)"
    using lu lv e by (simp add: mat_vec_sub)
  also have "\<dots> = replicate (length A) 0"
    by (simp add: list_eq_iff_nth_eq)
  finally have "mat_vec A (map2 (-) u v) = replicate (length A) 0" .
  moreover have "length (map2 (-) u v) = n" using lu lv by simp
  ultimately have "map2 (-) u v = replicate n 0" by (rule ker [rotated])
  then have "map2 (-) u v ! i = 0" if "i < n" for i using that by simp
  then have "u ! i = v ! i" if "i < n" for i using that lu lv by fastforce
  with lu lv show ?thesis by (simp add: list_eq_iff_nth_eq)
qed

text \<open>
  Together with soundness and completeness: on a square system with a fitting right-hand side
  the elimination succeeds exactly when the matrix has a trivial kernel, and the only error it
  raises is \<^verbatim>\<open>LinAlgError\<close>.
\<close>

lemma gauss_success_kernel:
  assumes "gauss n rows = Inr xs" "length rows = n" "\<forall>r\<in>set rows. length (fst r) = n"
    and "length v = n" "\<forall>r\<in>set rows. dot (fst r) v = 0"
  shows "v = replicate n 0"
  using assms
proof (induction n arbitrary: rows xs v)
  case 0
  then show ?case by simp
next
  case (Suc n)
  define p where "p = argmax_abs (map (\<lambda>r. hd (fst r)) rows)"
  define piv where "piv = rows ! p"
  define rest where "rest = tl (rows[p := hd rows])"
  from Suc.prems(1) obtain ys where nz: "hd (fst piv) \<noteq> 0"
    and g: "gauss n (map (eliminate piv) rest) = Inr ys"
    unfolding piv_def rest_def p_def by (rule gauss_Suc_Inr)
  have "rows \<noteq> []" using Suc.prems(2) by auto
  then have pl: "p < length rows"
    using argmax_abs_less [of "map (\<lambda>r. hd (fst r)) rows"] by (simp add: p_def)
  have split: "set rows = insert piv (set rest)"
    unfolding piv_def rest_def by (rule set_pivot_split [OF pl])
  have lp: "length (fst piv) = Suc n" using Suc.prems(3) split by simp
  have lr: "length (fst r) = Suc n" if "r \<in> set rest" for r
    using Suc.prems(3) split that by simp
  from Suc.prems(4) obtain v0 vs where v: "v = v0 # vs" and lvs: "length vs = n"
    by (cases v) simp_all
  have kp: "hd (fst piv) * v0 + dot (tl (fst piv)) vs = 0"
    using Suc.prems(5) split by (simp add: v dot_Cons_row [OF lp, symmetric])
  have "vs = replicate n 0"
  proof (rule Suc.IH [OF g _ _ lvs])
    show "length (map (eliminate piv) rest) = n"
      using Suc.prems(2) by (simp add: rest_def)
    show "\<forall>e\<in>set (map (eliminate piv) rest). length (fst e) = n"
      using lr lp by (auto simp: eliminate_length)
    show "\<forall>e\<in>set (map (eliminate piv) rest). dot (fst e) vs = 0"
    proof
      fix e assume "e \<in> set (map (eliminate piv) rest)"
      then obtain r where r: "r \<in> set rest" and e: "e = eliminate piv r" by auto
      have "hd (fst r) * v0 + dot (tl (fst r)) vs = 0"
        using Suc.prems(5) split r by (simp add: v dot_Cons_row [OF lr [OF r], symmetric])
      moreover have "dot (tl (fst piv)) vs = - hd (fst piv) * v0" using kp by simp
      ultimately show "dot (fst e) vs = 0"
        unfolding e eliminate_dot [OF lr [OF r] lp] using nz by (simp add: field_simps)
    qed
  qed
  with kp nz have "v0 = 0" by simp
  with \<open>vs = replicate n 0\<close> show ?case by (simp add: v)
qed

lemma solve_succeeds_iff:
  assumes sq: "\<forall>row\<in>set A. length row = length A" and lf: "length f = length A"
  shows "(\<exists>u. solve A f = Inr u) \<longleftrightarrow>
    (\<forall>x. length x = length A \<and> mat_vec A x = replicate (length A) 0 \<longrightarrow> x = replicate (length A) 0)"
proof
  assume "\<exists>u. solve A f = Inr u"
  then obtain u where "solve A f = Inr u" ..
  with sq lf have g: "gauss (length A) (zip A f) = Inr u" by (auto simp: solve_def)
  show "\<forall>x. length x = length A \<and> mat_vec A x = replicate (length A) 0 \<longrightarrow> x = replicate (length A) 0"
  proof (intro allI impI, elim conjE)
    fix x :: "real list"
    assume lx: "length x = length A" and z: "mat_vec A x = replicate (length A) 0"
    show "x = replicate (length A) 0"
    proof (rule gauss_success_kernel [OF g _ _ lx])
      show "length (zip A f) = length A" using lf by simp
      show "\<forall>r\<in>set (zip A f). length (fst r) = length A"
        using sq by (auto dest: set_zip_leftD)
      show "\<forall>r\<in>set (zip A f). dot (fst r) x = 0"
      proof
        fix r assume "r \<in> set (zip A f)"
        then obtain i where i: "i < length A" "fst r = A ! i"
          using lf by (auto simp: set_zip)
        from z have "mat_vec A x ! i = 0" using i(1) by simp
        with i show "dot (fst r) x = 0" by (simp add: mat_vec_nth)
      qed
    qed
  qed
next
  assume k: "\<forall>x. length x = length A \<and> mat_vec A x = replicate (length A) 0 \<longrightarrow> x = replicate (length A) 0"
  show "\<exists>u. solve A f = Inr u"
  proof (rule solve_complete [OF sq lf])
    show "x = replicate (length A) 0"
      if "length x = length A" "mat_vec A x = replicate (length A) 0" for x
      using k that by (elim allE [of _ x]) simp
  qed
qed

lemma gauss_error: "gauss n rows = Inl e \<Longrightarrow> e = LinAlgError"
  by (induction n arbitrary: rows) (auto simp: Let_def split: if_splits sum.splits)

lemma beam_matrix_square:
  assumes "5 \<le> n"
  shows "\<forall>row\<in>set (beam_matrix n). length row = n"
proof -
  have "length (interior_row n i) = n" if "i \<in> set [2..<n - 2]" for i
    using that by (auto simp: interior_row_def)
  with assms show ?thesis by (auto simp: beam_matrix_def)
qed

lemma beam_solve:
  assumes n: "5 \<le> n" and g: "length g = n"
  shows "\<exists>u. solve (beam_matrix n) g = Inr u \<and> length u = n \<and> mat_vec (beam_matrix n) u = g
    \<and> (\<forall>v. length v = n \<and> mat_vec (beam_matrix n) v = g \<longrightarrow> v = u)"
proof -
  have len: "length (beam_matrix n) = n" using n by (simp add: beam_matrix_length)
  have ker: "x = replicate n 0"
    if "length x = n" "mat_vec (beam_matrix n) x = replicate (length (beam_matrix n)) 0" for x
    using that beam_kernel [OF n, of x] by (simp add: len)
  have "\<exists>u. solve (beam_matrix n) g = Inr u"
  proof (rule solve_complete)
    show "\<forall>row\<in>set (beam_matrix n). length row = length (beam_matrix n)"
      using beam_matrix_square [OF n] by (simp add: len)
    show "length g = length (beam_matrix n)" using g by (simp add: len)
    show "x = replicate (length (beam_matrix n)) 0"
      if "length x = length (beam_matrix n)"
        "mat_vec (beam_matrix n) x = replicate (length (beam_matrix n)) 0" for x
      using ker [of x] that by (simp only: len)
  qed
  then obtain u where s: "solve (beam_matrix n) g = Inr u" ..
  from solve_sound [OF s] have u: "length u = n" "mat_vec (beam_matrix n) u = g"
    by (simp_all add: len)
  have "v = u" if "length v = n" "mat_vec (beam_matrix n) v = g" for v
  proof (rule solution_unique [of n "beam_matrix n"])
    show "x = replicate n 0"
      if "length x = n" "mat_vec (beam_matrix n) x = replicate (length (beam_matrix n)) 0" for x
      using that by (rule ker)
    show "length v = n" "length u = n" by (rule that(1), rule u(1))
    show "mat_vec (beam_matrix n) v = mat_vec (beam_matrix n) u"
      unfolding that(2) u(2) ..
  qed
  with s u show ?thesis by blast
qed

lemma beam_eq:
  assumes "5 \<le> n"
  shows "beam (int n) b = solve (beam_matrix n) (beam_load n b)"
  by (simp add: beam_def assemble_eq [OF assms])

section \<open>The determinant of the beam matrix\<close>

lemma det_two_by_two: "det [[a, b], [c, d]] = a * d - b * c"
  by (simp add: det_def numeral_2_eq_2)

lemma alt_expand_swap_pre:
  assumes d: "\<And>xs a b ys. length xs + length ys + 2 = n \<Longrightarrow> d (xs @ a # b # ys) = - d (xs @ b # a # ys)"
    and len: "length p + length q + length post + 1 = n"
  shows "alt_expand d (p @ a # b # q) post = - alt_expand d (p @ b # a # q) post"
  using len
proof (induction post arbitrary: q)
  case Nil
  then show ?case by simp
next
  case (Cons r post)
  have t: "d (map tl ((p @ a # b # q) @ post)) = - d (map tl ((p @ b # a # q) @ post))"
    using d [of "map tl p" "map tl (q @ post)" "tl a" "tl b"] Cons.prems by simp
  have "alt_expand d (p @ a # b # (q @ [r])) post = - alt_expand d (p @ b # a # (q @ [r])) post"
    by (rule Cons.IH) (use Cons.prems in simp)
  then have i: "alt_expand d ((p @ a # b # q) @ [r]) post = - alt_expand d ((p @ b # a # q) @ [r]) post"
    by simp
  show ?case
    unfolding alt_expand.simps t i by simp
qed

lemma alt_expand_swap_post:
  assumes d: "\<And>xs a b ys. length xs + length ys + 2 = n \<Longrightarrow> d (xs @ a # b # ys) = - d (xs @ b # a # ys)"
    and len: "length pre + length xs + length ys + 1 = n"
  shows "alt_expand d pre (xs @ a # b # ys) = - alt_expand d pre (xs @ b # a # ys)"
  using len
proof (induction xs arbitrary: pre)
  case Nil
  have "alt_expand d (pre @ a # b # []) ys = - alt_expand d (pre @ b # a # []) ys"
  proof (rule alt_expand_swap_pre [where n = n])
    show "d (xs @ a # b # ys) = - d (xs @ b # a # ys)"
      if "length xs + length ys + 2 = n" for xs a b ys
      using that by (rule d)
    show "length pre + length [] + length ys + 1 = n" using Nil by simp
  qed
  then show ?case by simp
next
  case (Cons x xs)
  have t: "d (map tl (pre @ xs @ a # b # ys)) = - d (map tl (pre @ xs @ b # a # ys))"
    using d [of "map tl (pre @ xs)" "map tl ys" "tl a" "tl b"] Cons.prems by simp
  have i: "alt_expand d (pre @ [x]) (xs @ a # b # ys) = - alt_expand d (pre @ [x]) (xs @ b # a # ys)"
    by (rule Cons.IH) (use Cons.prems in simp)
  show ?case
    unfolding append_Cons alt_expand.simps t i by simp
qed

lemma det_rec_swap:
  "length xs + length ys + 2 = n \<Longrightarrow> det_rec n (xs @ a # b # ys) = - det_rec n (xs @ b # a # ys)"
proof (induction n arbitrary: xs ys a b)
  case 0
  then show ?case by simp
next
  case (Suc n)
  show ?case
    unfolding det_rec.simps
  proof (rule alt_expand_swap_post [where n = n])
    show "det_rec n (xs @ a # b # ys) = - det_rec n (xs @ b # a # ys)"
      if "length xs + length ys + 2 = n" for xs a b ys
      using that by (rule Suc.IH)
    show "length [] + length xs + length ys + 1 = n" using Suc.prems by simp
  qed
qed

lemma det_rec_move:
  "length p + length xs + length ys + 1 = n \<Longrightarrow>
   det_rec n (p @ xs @ a # ys) = (- 1) ^ length xs * det_rec n (p @ a # xs @ ys)"
proof (induction xs arbitrary: ys rule: rev_induct)
  case Nil
  then show ?case by simp
next
  case (snoc x xs)
  have "det_rec n ((p @ xs) @ x # a # ys) = - det_rec n ((p @ xs) @ a # x # ys)"
    by (rule det_rec_swap) (use snoc.prems in simp)
  also have "det_rec n ((p @ xs) @ a # x # ys) = det_rec n (p @ xs @ a # (x # ys))" by simp
  also have "\<dots> = (- 1) ^ length xs * det_rec n (p @ a # xs @ x # ys)"
    by (rule snoc.IH) (use snoc.prems in simp)
  finally show ?case by simp
qed

lemma det_rec_twice:
  assumes "length xs + length ys + 2 = n"
  shows "det_rec n (a # xs @ a # ys) = 0"
proof -
  have "det_rec n ([a] @ xs @ a # ys) = (- 1) ^ length xs * det_rec n ([a] @ a # xs @ ys)"
    by (rule det_rec_move) (use assms in simp)
  moreover have "det_rec n ([] @ a # a # xs @ ys) = - det_rec n ([] @ a # a # xs @ ys)"
    by (rule det_rec_swap) (use assms in simp)
  ultimately show ?thesis by simp
qed


lemma tl_map2: "tl (map2 f r s) = map2 f (tl r) (tl s)"
  by (cases r; cases s) simp_all

lemma hd_map2: "r \<noteq> [] \<Longrightarrow> s \<noteq> [] \<Longrightarrow> hd (map2 f r s) = f (hd r) (hd s)"
  by (cases r; cases s) simp_all

lemma alt_expand_lin_pre:
  assumes d: "\<And>xs ys r s. length xs + length ys + 1 = n \<Longrightarrow> length r = length s \<Longrightarrow> n \<le> length r \<Longrightarrow>
      d (xs @ map2 (\<lambda>x y. x - m * y) r s # ys) = d (xs @ r # ys) - m * d (xs @ s # ys)"
    and len: "length p + length q + length post = n"
    and rs: "length r = length s" "Suc n \<le> length r"
  shows "alt_expand d (p @ map2 (\<lambda>x y. x - m * y) r s # q) post
       = alt_expand d (p @ r # q) post - m * alt_expand d (p @ s # q) post"
  using len
proof (induction post arbitrary: q)
  case Nil
  then show ?case by simp
next
  case (Cons x post)
  let ?z = "map2 (\<lambda>x y. x - m * y) r s"
  have "d (map tl p @ map2 (\<lambda>x y. x - m * y) (tl r) (tl s) # map tl (q @ post))
      = d (map tl p @ tl r # map tl (q @ post)) - m * d (map tl p @ tl s # map tl (q @ post))"
    by (rule d) (use Cons.prems rs in simp_all)
  then have t: "d (map tl ((p @ ?z # q) @ post))
      = d (map tl ((p @ r # q) @ post)) - m * d (map tl ((p @ s # q) @ post))"
    by (simp add: tl_map2)
  have "alt_expand d (p @ ?z # (q @ [x])) post
      = alt_expand d (p @ r # (q @ [x])) post - m * alt_expand d (p @ s # (q @ [x])) post"
    by (rule Cons.IH) (use Cons.prems in simp)
  then have i: "alt_expand d ((p @ ?z # q) @ [x]) post
      = alt_expand d ((p @ r # q) @ [x]) post - m * alt_expand d ((p @ s # q) @ [x]) post"
    by simp
  show ?case
    unfolding alt_expand.simps t i by (simp add: algebra_simps)
qed

lemma alt_expand_lin_post:
  assumes d: "\<And>xs ys r s. length xs + length ys + 1 = n \<Longrightarrow> length r = length s \<Longrightarrow> n \<le> length r \<Longrightarrow>
      d (xs @ map2 (\<lambda>x y. x - m * y) r s # ys) = d (xs @ r # ys) - m * d (xs @ s # ys)"
    and len: "length pre + length xs + length ys = n"
    and rs: "length r = length s" "Suc n \<le> length r"
  shows "alt_expand d pre (xs @ map2 (\<lambda>x y. x - m * y) r s # ys)
       = alt_expand d pre (xs @ r # ys) - m * alt_expand d pre (xs @ s # ys)"
  using len
proof (induction xs arbitrary: pre)
  case Nil
  let ?z = "map2 (\<lambda>x y. x - m * y) r s"
  have e: "alt_expand d (pre @ ?z # []) ys
      = alt_expand d (pre @ r # []) ys - m * alt_expand d (pre @ s # []) ys"
  proof (rule alt_expand_lin_pre [where n = n])
    show "d (xs @ map2 (\<lambda>x y. x - m * y) r s # ys) = d (xs @ r # ys) - m * d (xs @ s # ys)"
      if "length xs + length ys + 1 = n" "length r = length s" "n \<le> length r" for xs ys r s
      using that by (rule d)
    show "length pre + length [] + length ys = n" using Nil by simp
  qed (rule rs)+
  have h: "hd ?z = hd r - m * hd s"
    using rs by (intro hd_map2) auto
  show ?case
    unfolding append_Nil alt_expand.simps e h by (simp add: algebra_simps)
next
  case (Cons x xs)
  let ?z = "map2 (\<lambda>x y. x - m * y) r s"
  have "d (map tl (pre @ xs) @ map2 (\<lambda>x y. x - m * y) (tl r) (tl s) # map tl ys)
      = d (map tl (pre @ xs) @ tl r # map tl ys) - m * d (map tl (pre @ xs) @ tl s # map tl ys)"
    by (rule d) (use Cons.prems rs in simp_all)
  then have t: "d (map tl (pre @ xs @ ?z # ys))
      = d (map tl (pre @ xs @ r # ys)) - m * d (map tl (pre @ xs @ s # ys))"
    by (simp add: tl_map2)
  have i: "alt_expand d (pre @ [x]) (xs @ ?z # ys)
      = alt_expand d (pre @ [x]) (xs @ r # ys) - m * alt_expand d (pre @ [x]) (xs @ s # ys)"
    by (rule Cons.IH) (use Cons.prems in simp)
  show ?case
    unfolding append_Cons alt_expand.simps t i by (simp add: algebra_simps)
qed

lemma det_rec_lin:
  "length xs + length ys + 1 = n \<Longrightarrow> length r = length s \<Longrightarrow> n \<le> length r \<Longrightarrow>
   det_rec n (xs @ map2 (\<lambda>x y. x - m * y) r s # ys)
     = det_rec n (xs @ r # ys) - m * det_rec n (xs @ s # ys)"
proof (induction n arbitrary: xs ys r s)
  case 0
  then show ?case by simp
next
  case (Suc n)
  show ?case
    unfolding det_rec.simps
  proof (rule alt_expand_lin_post [where n = n])
    show "det_rec n (xs @ map2 (\<lambda>x y. x - m * y) r s # ys)
        = det_rec n (xs @ r # ys) - m * det_rec n (xs @ s # ys)"
      if "length xs + length ys + 1 = n" "length r = length s" "n \<le> length r" for xs ys r s
      using that by (rule Suc.IH)
    show "length [] + length xs + length ys = n" using Suc.prems by simp
  qed (use Suc.prems in simp_all)
qed


lemma det_rec_rowop:
  assumes "length pre + length rest + 1 = n" "n \<le> length piv"
    and "\<forall>r\<in>set rest. length r = length piv"
  shows "det_rec n (piv # pre @ map (\<lambda>r. map2 (\<lambda>x y. x - c r * y) r piv) rest)
       = det_rec n (piv # pre @ rest)"
  using assms(1,3)
proof (induction rest arbitrary: pre)
  case Nil
  then show ?case by simp
next
  case (Cons r rest)
  let ?g = "\<lambda>r. map2 (\<lambda>x y. x - c r * y) r piv"
  have "det_rec n ((piv # pre) @ map2 (\<lambda>x y. x - c r * y) r piv # map ?g rest)
      = det_rec n ((piv # pre) @ r # map ?g rest) - c r * det_rec n ((piv # pre) @ piv # map ?g rest)"
    by (rule det_rec_lin) (use Cons.prems assms(2) in simp_all)
  moreover have "det_rec n (piv # pre @ piv # map ?g rest) = 0"
    by (rule det_rec_twice) (use Cons.prems in simp)
  moreover have "det_rec n (piv # (pre @ [r]) @ map ?g rest) = det_rec n (piv # (pre @ [r]) @ rest)"
    by (rule Cons.IH) (use Cons.prems in simp_all)
  ultimately show ?case by simp
qed

lemma alt_expand_zero_heads: "\<forall>r\<in>set post. hd r = 0 \<Longrightarrow> alt_expand d pre post = 0"
  by (induction post arbitrary: pre) simp_all

lemma det_rec_first_column:
  "\<forall>r\<in>set rest. hd r = 0 \<Longrightarrow> det_rec (Suc n) (piv # rest) = hd piv * det_rec n (map tl rest)"
  by (simp add: alt_expand_zero_heads)

lemma dot_Cons_list: "length r = Suc n \<Longrightarrow> dot r (x # xs) = hd r * x + dot (tl r) xs"
  by (cases r) simp_all

lemma det_rec_nonzero:
  assumes "length rows = n" "\<forall>r\<in>set rows. length r = n"
    and "\<And>x. length x = n \<Longrightarrow> (\<forall>r\<in>set rows. dot r x = 0) \<Longrightarrow> x = replicate n 0"
  shows "det_rec n rows \<noteq> 0"
  using assms
proof (induction n arbitrary: rows)
  case 0
  then show ?case by simp
next
  case (Suc n)
  have "\<exists>piv\<in>set rows. hd piv \<noteq> 0"
  proof (rule ccontr)
    assume "\<not> (\<exists>piv\<in>set rows. hd piv \<noteq> 0)"
    then have "\<forall>r\<in>set rows. dot r (1 # replicate n 0) = 0"
      using Suc.prems(2) by (simp add: dot_Cons_list)
    from Suc.prems(3) [OF _ this] show False by simp
  qed
  then obtain piv where piv: "piv \<in> set rows" and nz: "hd piv \<noteq> 0" ..
  from split_list [OF piv] obtain xs ys where rows: "rows = xs @ piv # ys" by blast
  define rest where "rest = xs @ ys"
  define g where "g = (\<lambda>r. map2 (\<lambda>x y. x - hd r / hd piv * y) r piv)"
  have lrest: "length rest = n" using Suc.prems(1) by (simp add: rows rest_def)
  have lp: "length piv = Suc n" using Suc.prems(2) piv by simp
  have lr: "length r = Suc n" if "r \<in> set rest" for r
    using Suc.prems(2) that by (auto simp: rows rest_def)
  have hg: "hd (g r) = 0" if "r \<in> set rest" for r
  proof -
    have "hd (g r) = hd r - hd r / hd piv * hd piv"
      unfolding g_def using lr [OF that] lp by (intro hd_map2) auto
    with nz show ?thesis by simp
  qed
  have move: "det_rec (Suc n) rows = (- 1) ^ length xs * det_rec (Suc n) (piv # rest)"
    using det_rec_move [of "[]" xs ys "Suc n" piv] Suc.prems(1) by (simp add: rows rest_def)
  have "det_rec (Suc n) (piv # [] @ map g rest) = det_rec (Suc n) (piv # [] @ rest)"
    unfolding g_def by (rule det_rec_rowop) (use lrest lp lr in simp_all)
  then have "det_rec (Suc n) (piv # rest) = det_rec (Suc n) (piv # map g rest)" by simp
  also have "\<dots> = hd piv * det_rec n (map tl (map g rest))"
    by (rule det_rec_first_column) (use hg in simp)
  finally have expand: "det_rec (Suc n) (piv # rest) = hd piv * det_rec n (map tl (map g rest))" .
  have "det_rec n (map tl (map g rest)) \<noteq> 0"
  proof (rule Suc.IH)
    show "length (map tl (map g rest)) = n" using lrest by simp
    show "\<forall>e\<in>set (map tl (map g rest)). length e = n"
      using lr lp by (auto simp: g_def)
    fix v :: "real list"
    assume lv: "length v = n"
      and k: "\<forall>e\<in>set (map tl (map g rest)). dot e v = 0"
    define x0 where "x0 = - dot (tl piv) v / hd piv"
    have "dot r (x0 # v) = 0" if "r \<in> set rows" for r
    proof (cases "r = piv")
      case True
      then show ?thesis
        unfolding True dot_Cons_list [OF lp] x0_def using nz by simp
    next
      case False
      with that have r: "r \<in> set rest" by (auto simp: rows rest_def)
      with k have "dot (tl (g r)) v = 0" by simp
      moreover have "dot (tl (g r)) v = dot (tl r) v - hd r / hd piv * dot (tl piv) v"
        unfolding g_def tl_map2 by (rule dot_map2_sub) (use lr [OF r] lp in simp)
      ultimately have "dot (tl r) v = hd r / hd piv * dot (tl piv) v" by simp
      then show ?thesis
        unfolding dot_Cons_list [OF lr [OF r]] x0_def by simp
    qed
    then have "x0 # v = replicate (Suc n) 0"
      using Suc.prems(3) [of "x0 # v"] lv by simp
    then show "v = replicate n 0" by simp
  qed
  with nz show ?case unfolding move expand by simp
qed

lemma det_nonzero:
  assumes "\<forall>r\<in>set A. length r = length A"
    and "\<And>x. length x = length A \<Longrightarrow> mat_vec A x = replicate (length A) 0
           \<Longrightarrow> x = replicate (length A) 0"
  shows "det A \<noteq> 0"
  unfolding det_def
proof (rule det_rec_nonzero [OF refl assms(1)])
  fix x :: "real list"
  assume lx: "length x = length A" and z: "\<forall>r\<in>set A. dot r x = 0"
  from z have "mat_vec A x = replicate (length A) 0"
    by (simp add: mat_vec_def list_eq_iff_nth_eq)
  with lx show "x = replicate (length A) 0" by (rule assms(2))
qed

lemma det_beam_matrix: "5 \<le> n \<Longrightarrow> det (beam_matrix n) \<noteq> 0"
proof (rule det_nonzero)
  assume n: "5 \<le> n"
  then have len: "length (beam_matrix n) = n" by (simp add: beam_matrix_length)
  show "\<forall>r\<in>set (beam_matrix n). length r = length (beam_matrix n)"
    unfolding len by (rule beam_matrix_square [OF n])
  show "x = replicate (length (beam_matrix n)) 0"
    if "length x = length (beam_matrix n)"
      "mat_vec (beam_matrix n) x = replicate (length (beam_matrix n)) 0" for x
    using that unfolding len by (rule beam_kernel [OF n])
qed

text \<open>The smallest system: \<open>N = 5\<close> with unit body force, assembled, and its determinant.\<close>

lemma assemble_5_1:
  "assemble 5 1 = Inr ([[1, 0, 0, 0, 0], [1, - 1, 0, 0, 0], [1, - 4, 6, - 4, 1],
      [0, 0, 1, - 2, 1], [0, - 1, 3, - 3, 1]], [0, 0, - (1 / 256), 0, 0])"
  by (simp add: assemble_def stencil_row_def float_div_def zeros_def zeros2_def py_range_def
      setitem_def setitem2_def setslice2_def setslice_def slice_bound_def norm_index_def
      numeral_eq_Suc upto.simps)

lemma det_beam_5:
  "det [[1, 0, 0, 0, 0], [1, - 1, 0, 0, 0], [1, - 4, 6, - 4, 1],
      [0, 0, 1, - 2, 1], [0, - 1, 3, - 3, 1]] = - 1"
  by (simp add: det_def numeral_eq_Suc)

text \<open>
  Claim C3. For every \<open>N \<ge> 5\<close> and every body force, the assembled matrix is a square \<open>N\<close> by
  \<open>N\<close> matrix and is non-singular: its determinant is not zero, the only vector it sends to
  zero is the zero vector, and for every right-hand side of length \<open>N\<close>, the assembled load
  among them, the linear system has exactly one solution.
\<close>

theorem assembled_matrix_nonsingular:
  assumes "5 \<le> N"
  shows "\<exists>A f. assemble N b = Inr (A, f)
    \<and> length A = nat N \<and> (\<forall>row\<in>set A. length row = nat N)
    \<and> det A \<noteq> 0
    \<and> (\<forall>u. length u = nat N \<and> mat_vec A u = replicate (nat N) 0 \<longrightarrow> u = replicate (nat N) 0)
    \<and> (\<forall>g. length g = nat N \<longrightarrow> (\<exists>!u. length u = nat N \<and> mat_vec A u = g))
    \<and> (\<exists>!u. length u = nat N \<and> mat_vec A u = f)"
proof -
  define n where "n = nat N"
  have n: "N = int n" "5 \<le> n" using assms by (simp_all add: n_def)
  have a: "assemble N b = Inr (beam_matrix n, beam_load n b)"
    unfolding n(1) by (rule assemble_eq [OF n(2)])
  have len: "length (beam_matrix n) = n" using n(2) by (simp add: beam_matrix_length)
  have ker: "\<forall>u. length u = n \<and> mat_vec (beam_matrix n) u = replicate n 0 \<longrightarrow> u = replicate n 0"
  proof (intro allI impI, elim conjE)
    fix u :: "real list"
    assume "length u = n" "mat_vec (beam_matrix n) u = replicate n 0"
    then show "u = replicate n 0" by (rule beam_kernel [OF n(2)])
  qed
  have ex1: "\<exists>!u. length u = n \<and> mat_vec (beam_matrix n) u = g" if "length g = n" for g
  proof -
    from beam_solve [OF n(2) that] obtain u where
      u: "length u = n" "mat_vec (beam_matrix n) u = g"
        "\<forall>v. length v = n \<and> mat_vec (beam_matrix n) v = g \<longrightarrow> v = u"
      by (elim exE conjE)
    show ?thesis
    proof (rule ex1I [of _ u])
      show "length u = n \<and> mat_vec (beam_matrix n) u = g" using u(1,2) by simp
      show "v = u" if "length v = n \<and> mat_vec (beam_matrix n) v = g" for v
        using u(3) [rule_format, OF that] .
    qed
  qed
  have lf: "length (beam_load n b) = n" using n(2) by (simp add: beam_load_length)
  show ?thesis
    unfolding n_def [symmetric]
  proof (intro exI conjI)
    show "assemble N b = Inr (beam_matrix n, beam_load n b)" by (rule a)
    show "length (beam_matrix n) = n" by (rule len)
    show "\<forall>row\<in>set (beam_matrix n). length row = n" by (rule beam_matrix_square [OF n(2)])
    show "det (beam_matrix n) \<noteq> 0" by (rule det_beam_matrix [OF n(2)])
    show "\<forall>u. length u = n \<and> mat_vec (beam_matrix n) u = replicate n 0 \<longrightarrow> u = replicate n 0"
      by (rule ker)
    show "\<forall>g. length g = n \<longrightarrow> (\<exists>!u. length u = n \<and> mat_vec (beam_matrix n) u = g)"
      by (intro allI impI) (rule ex1)
    show "\<exists>!u. length u = n \<and> mat_vec (beam_matrix n) u = beam_load n b"
      by (rule ex1 [OF lf])
  qed
qed

theorem assembled_matrix_nonsingular_witness:
  "assemble 5 1 = Inr ([[1, 0, 0, 0, 0], [1, - 1, 0, 0, 0], [1, - 4, 6, - 4, 1],
      [0, 0, 1, - 2, 1], [0, - 1, 3, - 3, 1]], [0, 0, - (1 / 256), 0, 0])
   \<and> det [[1, 0, 0, 0, 0], [1, - 1, 0, 0, 0], [1, - 4, 6, - 4, 1],
      [0, 0, 1, - 2, 1], [0, - 1, 3, - 3, 1]] = - 1
   \<and> (\<exists>!u. length u = 5 \<and> mat_vec [[1, 0, 0, 0, 0], [1, - 1, 0, 0, 0], [1, - 4, 6, - 4, 1],
      [0, 0, 1, - 2, 1], [0, - 1, 3, - 3, 1]] u = [0, 0, - (1 / 256), 0, 0])
   \<and> (\<exists>!u. length u = 5 \<and> mat_vec [[1, 0, 0, 0, 0], [1, - 1, 0, 0, 0], [1, - 4, 6, - 4, 1],
      [0, 0, 1, - 2, 1], [0, - 1, 3, - 3, 1]] u = [1, 2, 3, 4, 5])"
proof -
  have "5 \<le> (5::int)" by simp
  from assembled_matrix_nonsingular [OF this, of 1] obtain A f where
    a: "assemble 5 1 = Inr (A, f)"
    and g: "\<forall>g. length g = nat 5 \<longrightarrow> (\<exists>!u. length u = nat 5 \<and> mat_vec A u = g)"
    and f: "\<exists>!u. length u = nat 5 \<and> mat_vec A u = f"
    by (elim exE conjE)
  have n5: "nat 5 = 5" by simp
  from a have A: "A = [[1, 0, 0, 0, 0], [1, - 1, 0, 0, 0], [1, - 4, 6, - 4, 1],
      [0, 0, 1, - 2, 1], [0, - 1, 3, - 3, 1]]" and F: "f = [0, 0, - (1 / 256), 0, 0]"
    unfolding assemble_5_1 by simp_all
  from g have "\<exists>!u. length u = 5 \<and> mat_vec A u = [1, 2, 3, 4, 5]"
    unfolding n5 by simp
  with f assemble_5_1 det_beam_5 show ?thesis
    unfolding n5 A F by (intro conjI)
qed

text \<open>
  Claim C4. For every \<open>N \<ge> 5\<close> and every body force, the solve on the assembled system returns
  a vector \<open>u\<close> of length \<open>N\<close> that solves the system and has \<open>u[0] = 0\<close> and \<open>u[1] = u[0]\<close> (in
  exact arithmetic): the Dirichlet and Neumann conditions of rows \<open>0\<close> and \<open>1\<close>.
\<close>

theorem solution_left_boundary:
  assumes "5 \<le> N"
  shows "\<exists>A f u. assemble N b = Inr (A, f) \<and> beam N b = Inr u \<and> length u = nat N
    \<and> mat_vec A u = f \<and> u ! 0 = 0 \<and> u ! 1 = u ! 0"
proof -
  define n where "n = nat N"
  have n: "N = int n" "5 \<le> n" using assms by (simp_all add: n_def)
  have a: "assemble N b = Inr (beam_matrix n, beam_load n b)"
    unfolding n(1) by (rule assemble_eq [OF n(2)])
  have lf: "length (beam_load n b) = n" using n(2) by (simp add: beam_load_length)
  from beam_solve [OF n(2) lf] obtain u where
    s: "solve (beam_matrix n) (beam_load n b) = Inr u" and lu: "length u = n"
    and e: "mat_vec (beam_matrix n) u = beam_load n b"
    by (elim exE conjE)
  have row: "dot (beam_matrix n ! i) u = beam_load n b ! i" if "i < n" for i
    using mat_vec_nth [of i "beam_matrix n" u] that n(2) e by (simp add: beam_matrix_length)
  have u0: "u ! 0 = 0"
    using row [of 0] beam_rows_dot(1) [OF n(2) lu] beam_load_nth_boundary(1) [OF n(2)] n(2)
    by simp
  have "u ! 0 - u ! 1 = 0"
    using row [of 1] beam_rows_dot(2) [OF n(2) lu] beam_load_nth_boundary(2) [OF n(2)] n(2)
    by simp
  then have u1: "u ! 1 = u ! 0" by simp
  have b: "beam N b = Inr u"
    unfolding n(1) beam_eq [OF n(2)] by (rule s)
  from a b lu e u0 u1 show ?thesis
    unfolding n_def [symmetric] by (intro exI conjI)
qed

text \<open>The smallest system, solved.\<close>

lemma beam_5_1: "beam 5 1 = Inr [0, 0, - (1 / 256), - (1 / 128), - (3 / 256)]"
proof -
  have "5 \<le> (5::nat)" by simp
  from beam_eq [OF this, of 1] have "beam 5 1 = solve (beam_matrix 5) (beam_load 5 1)" by simp
  also have "beam_matrix 5 = [[1, 0, 0, 0, 0], [1, - 1, 0, 0, 0], [1, - 4, 6, - 4, 1],
       [0, 0, 1, - 2, 1], [0, - 1, 3, - 3, 1]]"
    by (simp add: beam_matrix_def interior_row_def numeral_eq_Suc upt_rec)
  also have "beam_load 5 1 = [0, 0, - (1 / 256), 0, 0]"
    by (simp add: beam_load_def numeral_eq_Suc)
  also have "solve [[1, 0, 0, 0, 0], [1, - 1, 0, 0, 0], [1, - 4, 6, - 4, 1],
       [0, 0, 1, - 2, 1], [0, - 1, 3, - 3, 1]] [0, 0, - (1 / 256), 0, 0]
     = Inr [0, 0, - (1 / 256), - (1 / 128), - (3 / 256)]"
    by (simp add: solve_def numeral_eq_Suc Let_def eliminate_def)
  finally show ?thesis .
qed

theorem solution_left_boundary_witness:
  "beam 5 1 = Inr [0, 0, - (1 / 256), - (1 / 128), - (3 / 256)]
   \<and> (\<exists>A f u. assemble 5 1 = Inr (A, f) \<and> beam 5 1 = Inr u \<and> length u = 5
         \<and> mat_vec A u = f \<and> u ! 0 = 0 \<and> u ! 1 = u ! 0)"
  using solution_left_boundary [of 5 1] beam_5_1 by simp

text \<open>
  Claim C5. For every \<open>N \<ge> 5\<close> and every body force \<open>b\<close>, the assemblies for \<open>b\<close> and for \<open>2b\<close>
  return the same matrix, the solve succeeds on both systems and returns their solutions, and
  the solution for \<open>2b\<close> is exactly twice the solution for \<open>b\<close>, entry by entry.
\<close>

theorem solution_scales_with_force:
  assumes "5 \<le> N"
  shows "\<exists>A f f2 u. assemble N b = Inr (A, f) \<and> assemble N (2 * b) = Inr (A, f2)
    \<and> beam N b = Inr u \<and> length u = nat N \<and> mat_vec A u = f
    \<and> beam N (2 * b) = Inr (map ((*) 2) u) \<and> mat_vec A (map ((*) 2) u) = f2"
proof -
  define n where "n = nat N"
  have n: "N = int n" "5 \<le> n" using assms by (simp_all add: n_def)
  have a: "assemble N c = Inr (beam_matrix n, beam_load n c)" for c
    unfolding n(1) by (rule assemble_eq [OF n(2)])
  have lf: "length (beam_load n c) = n" for c using n(2) by (simp add: beam_load_length)
  from beam_solve [OF n(2) lf [of b]] obtain u where
    s: "solve (beam_matrix n) (beam_load n b) = Inr u" and lu: "length u = n"
    and e: "mat_vec (beam_matrix n) u = beam_load n b"
    by (elim exE conjE)
  from beam_solve [OF n(2) lf [of "2 * b"]] obtain v where
    s2: "solve (beam_matrix n) (beam_load n (2 * b)) = Inr v"
    and uniq: "\<forall>w. length w = n \<and> mat_vec (beam_matrix n) w = beam_load n (2 * b) \<longrightarrow> w = v"
    by (elim exE conjE)
  have "beam_load n (2 * b) = map ((*) 2) (beam_load n b)"
    by (simp add: beam_load_def)
  then have e2: "mat_vec (beam_matrix n) (map ((*) 2) u) = beam_load n (2 * b)"
    by (simp only: mat_vec_scale e)
  with lu have "map ((*) 2) u = v" by (intro uniq [rule_format]) simp
  with s2 have s2': "solve (beam_matrix n) (beam_load n (2 * b)) = Inr (map ((*) 2) u)" by simp
  have b1: "beam N b = Inr u"
    unfolding n(1) beam_eq [OF n(2)] by (rule s)
  have b2: "beam N (2 * b) = Inr (map ((*) 2) u)"
    unfolding n(1) beam_eq [OF n(2)] by (rule s2')
  from a [of b] a [of "2 * b"] b1 lu e b2 e2 show ?thesis
    unfolding n_def [symmetric] by (intro exI conjI)
qed

theorem solution_scales_with_force_witness:
  "beam 5 1 = Inr [0, 0, - (1 / 256), - (1 / 128), - (3 / 256)]
   \<and> beam 5 2 = Inr [0, 0, - (1 / 128), - (1 / 64), - (3 / 128)]"
proof -
  have "5 \<le> (5::int)" by simp
  from solution_scales_with_force [OF this, of 1] obtain u where
    "beam 5 1 = Inr u" "beam 5 (2 * 1) = Inr (map ((*) 2) u)"
    by (elim exE conjE)
  with beam_5_1 show ?thesis by simp
qed

section \<open>The solve and singular matrices\<close>

text \<open>
  Claim C8, in exact arithmetic. On a square matrix with a right-hand side of the same length,
  the solve fails with \<^verbatim>\<open>LinAlgError\<close> (the specification's \<^verbatim>\<open>SingularMatrix\<close>) exactly when the
  matrix is singular, that is, when some non-zero vector is sent to zero; it raises no other
  error, so a singular matrix never yields a vector; and when the matrix is non-singular it
  returns the unique solution of the system.
\<close>

theorem solve_singular_iff:
  assumes "\<forall>row\<in>set A. length row = length A" and "length f = length A"
  shows "(solve A f = Inl LinAlgError \<longleftrightarrow>
        (\<exists>x. length x = length A \<and> x \<noteq> replicate (length A) 0
           \<and> mat_vec A x = replicate (length A) 0))
    \<and> (\<forall>e. solve A f = Inl e \<longrightarrow> e = LinAlgError)
    \<and> ((\<forall>x. length x = length A \<and> mat_vec A x = replicate (length A) 0
            \<longrightarrow> x = replicate (length A) 0)
         \<longrightarrow> (\<exists>u. solve A f = Inr u \<and> length u = length A \<and> mat_vec A u = f
               \<and> (\<forall>v. length v = length A \<and> mat_vec A v = f \<longrightarrow> v = u)))"
proof -
  let ?K = "\<forall>x. length x = length A \<and> mat_vec A x = replicate (length A) 0
            \<longrightarrow> x = replicate (length A) 0"
  have iff: "(\<exists>u. solve A f = Inr u) \<longleftrightarrow> ?K"
    by (rule solve_succeeds_iff [OF assms])
  have g: "solve A f = gauss (length A) (zip A f)"
    using assms by (auto simp: solve_def)
  have err: "e = LinAlgError" if "solve A f = Inl e" for e
    using that unfolding g by (rule gauss_error)
  have fail: "solve A f = Inl LinAlgError \<longleftrightarrow> \<not> ?K"
  proof
    assume "solve A f = Inl LinAlgError"
    then have "\<not> (\<exists>u. solve A f = Inr u)" by simp
    with iff show "\<not> ?K" by simp
  next
    assume "\<not> ?K"
    with iff have n: "\<not> (\<exists>u. solve A f = Inr u)" by simp
    show "solve A f = Inl LinAlgError"
    proof (cases "solve A f")
      case (Inl e)
      with err [OF Inl] show ?thesis by simp
    next
      case (Inr u)
      with n show ?thesis by simp
    qed
  qed
  have sing: "\<not> ?K \<longleftrightarrow> (\<exists>x. length x = length A \<and> x \<noteq> replicate (length A) 0
           \<and> mat_vec A x = replicate (length A) 0)"
    by (simp only: not_all not_imp conj_ac)
  have sol: "\<exists>u. solve A f = Inr u \<and> length u = length A \<and> mat_vec A u = f
               \<and> (\<forall>v. length v = length A \<and> mat_vec A v = f \<longrightarrow> v = u)" if k: ?K
  proof -
    from iff k obtain u where s: "solve A f = Inr u" by auto
    from solve_sound [OF s] have u: "length u = length A" "mat_vec A u = f" by simp_all
    have "v = u" if "length v = length A \<and> mat_vec A v = f" for v
    proof (rule solution_unique [of "length A" A])
      show "x = replicate (length A) 0"
        if "length x = length A" "mat_vec A x = replicate (length A) 0" for x
        using that by (intro k [rule_format]) simp
      show "length v = length A" "length u = length A" using that u(1) by simp_all
      show "mat_vec A v = mat_vec A u" using that u(2) by simp
    qed
    with s u show ?thesis by (intro exI [of _ u] conjI allI impI)
  qed
  from fail sing err sol show ?thesis
    by (intro conjI allI impI) (simp_all only:)
qed


text \<open>A singular and a non-singular system of size two, solved.\<close>

lemma solve_two_by_two:
  "solve [[1, 2], [2, 4]] [3, 4] = Inl LinAlgError"
  "solve [[0, 1], [1, 0]] [3, 4] = Inr [4, 3]"
  by (simp_all add: solve_def numeral_eq_Suc Let_def eliminate_def)

theorem solve_singular_iff_witness:
  "solve [[1, 2], [2, 4]] [3, 4] = Inl LinAlgError
   \<and> mat_vec [[1, 2], [2, 4]] [2, - 1] = [0, 0]
   \<and> solve [[0, 1], [1, 0]] [3, 4] = Inr [4, 3]
   \<and> (\<exists>!u. length u = 2 \<and> mat_vec [[0, 1], [1, 0]] u = [3, 4])"
proof -
  let ?S = "[[1, 2], [2, 4 :: real]]" and ?B = "[[0, 1], [1, 0 :: real]]" and ?f = "[3, 4 :: real]"
  have two: "replicate 2 (0::real) = [0, 0]" by (simp add: numeral_2_eq_2)
  have sqS: "\<forall>row\<in>set ?S. length row = length ?S" and sqB: "\<forall>row\<in>set ?B. length row = length ?B"
    and lf: "length ?f = length ?S" "length ?f = length ?B"
    by simp_all
  note S = solve_singular_iff [OF sqS lf(1)] and B = solve_singular_iff [OF sqB lf(2)]
  have k: "mat_vec ?S [2, - 1] = [0, 0]" by (simp add: mat_vec_def)
  have "\<exists>x. length x = length ?S \<and> x \<noteq> replicate (length ?S) 0
      \<and> mat_vec ?S x = replicate (length ?S) 0"
    by (rule exI [of _ "[2, - 1]"]) (simp add: two k)
  then have s: "solve ?S ?f = Inl LinAlgError"
    by (rule S [THEN conjunct1, THEN iffD2])
  have b: "solve ?B ?f = Inr [4, 3]" by (rule solve_two_by_two(2))
  have K: "\<forall>x. length x = length ?B \<and> mat_vec ?B x = replicate (length ?B) 0
      \<longrightarrow> x = replicate (length ?B) 0"
  proof (intro allI impI, rule ccontr)
    fix x :: "real list"
    assume "length x = length ?B \<and> mat_vec ?B x = replicate (length ?B) 0"
      and "x \<noteq> replicate (length ?B) 0"
    then have "\<exists>x. length x = length ?B \<and> x \<noteq> replicate (length ?B) 0
      \<and> mat_vec ?B x = replicate (length ?B) 0"
      by (intro exI [of _ x]) simp
    then have "solve ?B ?f = Inl LinAlgError"
      by (rule B [THEN conjunct1, THEN iffD2])
    then show False unfolding b by simp
  qed
  from B [THEN conjunct2, THEN conjunct2, THEN mp, OF K] obtain u where
    u: "length u = length ?B" "mat_vec ?B u = ?f"
    and uniq: "\<forall>v. length v = length ?B \<and> mat_vec ?B v = ?f \<longrightarrow> v = u"
    by (elim exE conjE)
  have "\<exists>!u. length u = 2 \<and> mat_vec ?B u = ?f"
  proof (rule ex1I [of _ u])
    show "length u = 2 \<and> mat_vec ?B u = ?f" using u by simp
    show "v = u" if "length v = 2 \<and> mat_vec ?B v = ?f" for v
      using that by (intro uniq [rule_format]) simp
  qed
  with s k b show ?thesis by (intro conjI)
qed

end
